theory Spec2Isabelle
  imports Main "HOL-Library.Word"
begin

unbundle bit_operations_syntax

section \<open>JavaScript values\<close>

text \<open>
  The client library \<^verbatim>\<open>lib/crypto.js\<close> and the page \<^verbatim>\<open>CreateSecret.jsx\<close> work on
  JavaScript strings, byte buffers and CryptoJS word arrays. A JavaScript string is a
  sequence of UTF-16 code units, so it is a list of 16-bit words here; an element of a
  \<^verbatim>\<open>Uint8Array\<close> and a byte of a word array is an 8-bit word. A CryptoJS \<^verbatim>\<open>WordArray\<close>
  whose bytes beyond \<^verbatim>\<open>sigBytes\<close> are zero is the list of its first \<^verbatim>\<open>sigBytes\<close> bytes.
  JavaScript numbers that hold integers are \<open>int\<close>.
\<close>

type_synonym byte = "8 word"
type_synonym jschar = "16 word"
type_synonym jsstring = "jschar list"

definition lit :: "string \<Rightarrow> jsstring" where
  \<comment> \<open>an ASCII string literal of the source as a JavaScript string\<close>
  "lit s = map (\<lambda>c. of_nat (of_char c)) s"

datatype js_error =
    URIError                \<comment> \<open>\<^verbatim>\<open>encodeURIComponent\<close> on an unpaired surrogate\<close>
  | MalformedUtf8           \<comment> \<open>CryptoJS: \<^verbatim>\<open>Error('Malformed UTF-8 data')\<close>\<close>
  | InvalidCharacterError   \<comment> \<open>\<^verbatim>\<open>atob\<close> and \<^verbatim>\<open>btoa\<close> on input outside their domain\<close>
  | NetworkError            \<comment> \<open>a rejected request\<close>

section \<open>Hexadecimal text\<close>

definition hexChar :: "int \<Rightarrow> jschar" where
  \<comment> \<open>the digit that \<^verbatim>\<open>toString(16)\<close> prints for a value below 16\<close>
  "hexChar d = of_int (if d < 10 then 48 + d else 87 + d)"

definition toString16 :: "byte \<Rightarrow> jsstring" where
  \<comment> \<open>\<^verbatim>\<open>byte.toString(16)\<close>: no leading zero\<close>
  "toString16 b =
     (if uint b < 16 then [hexChar (uint b)]
      else [hexChar (uint b div 16), hexChar (uint b mod 16)])"

definition padStart2 :: "jsstring \<Rightarrow> jsstring" where
  \<comment> \<open>\<^verbatim>\<open>s.padStart(2, '0')\<close>\<close>
  "padStart2 s = replicate (2 - length s) (hexChar 0) @ s"

definition hexVal :: "jschar \<Rightarrow> int option" where
  \<comment> \<open>the value of a hexadecimal digit, either case\<close>
  "hexVal c =
     (let u = uint c in
      if 48 \<le> u \<and> u \<le> 57 then Some (u - 48)
      else if 97 \<le> u \<and> u \<le> 102 then Some (u - 87)
      else if 65 \<le> u \<and> u \<le> 70 then Some (u - 55)
      else None)"

definition is_hex :: "jsstring \<Rightarrow> bool" where
  \<comment> \<open>hexadecimal digits only, an even number of them\<close>
  "is_hex s = (even (length s) \<and> list_all (\<lambda>c. hexVal c \<noteq> None) s)"

definition digitVal :: "jschar \<Rightarrow> int" where
  "digitVal c = (case hexVal c of Some d \<Rightarrow> d | None \<Rightarrow> 0)"

text \<open>
  \<^verbatim>\<open>CryptoJS.enc.Hex.parse\<close> reads the string two characters at a time with
  \<^verbatim>\<open>parseInt(hexStr.substr(i, 2), 16)\<close> and reports \<^verbatim>\<open>hexStr.length / 2\<close> bytes. It never
  throws. On a string of hexadecimal digits of even length (\<^const>\<open>is_hex\<close>) the result is
  the list of bytes below. For any other string (\<^verbatim>\<open>parseInt\<close> yields \<^verbatim>\<open>NaN\<close>, a partial
  or a signed value, or the byte count is fractional) the function below is a placeholder:
  every statement about the bytes of a key or an IV is made for \<^const>\<open>is_hex\<close> strings.
\<close>

fun hex_parse :: "jsstring \<Rightarrow> byte list" where
  "hex_parse (a # b # cs) = of_int (16 * digitVal a + digitVal b) # hex_parse cs"
| "hex_parse _ = []"

definition hex_stringify :: "byte list \<Rightarrow> jsstring" where
  \<comment> \<open>\<^verbatim>\<open>CryptoJS.enc.Hex.stringify\<close>: two lower-case digits for each byte\<close>
  "hex_stringify bs = concat (map (\<lambda>b. [hexChar (uint b div 16), hexChar (uint b mod 16)]) bs)"

definition lower_hex :: "jschar \<Rightarrow> bool" where
  \<comment> \<open>one of \<^verbatim>\<open>0123456789abcdef\<close>\<close>
  "lower_hex c = ((48 \<le> uint c \<and> uint c \<le> 57) \<or> (97 \<le> uint c \<and> uint c \<le> 102))"

section \<open>Key and IV generation\<close>

text \<open>
  \<^verbatim>\<open>crypto.getRandomValues(array)\<close> fills every element of the array it is given. The
  bytes it draws are an input of the model: one value of type \<open>entropy\<close> stands for the
  bytes of one call, by index.
\<close>

type_synonym entropy = "nat \<Rightarrow> byte"

definition getRandomValues :: "entropy \<Rightarrow> nat \<Rightarrow> byte list" where
  "getRandomValues rnd n = map rnd [0..<n]"

definition generateEncryptionKey :: "entropy \<Rightarrow> jsstring" where
  "generateEncryptionKey rnd =
     concat (map (\<lambda>byte. padStart2 (toString16 byte)) (getRandomValues rnd 32))"

definition generateIV :: "entropy \<Rightarrow> jsstring" where
  "generateIV rnd =
     concat (map (\<lambda>byte. padStart2 (toString16 byte)) (getRandomValues rnd 16))"

section \<open>UTF-8 text\<close>

text \<open>
  \<^verbatim>\<open>CryptoJS.enc.Utf8.parse(s)\<close> is \<^verbatim>\<open>Latin1.parse(unescape(encodeURIComponent(s)))\<close>:
  the UTF-8 bytes of the code points of \<open>s\<close>, where a surrogate pair is one code point
  and \<^verbatim>\<open>encodeURIComponent\<close> throws \<^verbatim>\<open>URIError\<close> on a surrogate that has no partner.
\<close>

definition is_high_surrogate :: "jschar \<Rightarrow> bool" where
  "is_high_surrogate c = (0xD800 \<le> uint c \<and> uint c < 0xDC00)"

definition is_low_surrogate :: "jschar \<Rightarrow> bool" where
  "is_low_surrogate c = (0xDC00 \<le> uint c \<and> uint c < 0xE000)"

definition utf8_of_codepoint :: "int \<Rightarrow> byte list" where
  "utf8_of_codepoint v =
     (if v < 0x80 then [of_int v]
      else if v < 0x800 then [of_int (0xC0 + v div 64), of_int (0x80 + v mod 64)]
      else if v < 0x10000 then
        [of_int (0xE0 + v div 4096), of_int (0x80 + v div 64 mod 64), of_int (0x80 + v mod 64)]
      else
        [of_int (0xF0 + v div 262144), of_int (0x80 + v div 4096 mod 64),
         of_int (0x80 + v div 64 mod 64), of_int (0x80 + v mod 64)])"

definition pair_codepoint :: "jschar \<Rightarrow> jschar \<Rightarrow> int" where
  \<comment> \<open>the code point of a surrogate pair\<close>
  "pair_codepoint hi lo = (uint hi - 0xD800) * 1024 + (uint lo - 0xDC00) + 0x10000"

fun utf8_parse :: "jsstring \<Rightarrow> js_error + byte list" where
  "utf8_parse [] = Inr []"
| "utf8_parse (c # cs) =
     (if is_low_surrogate c then Inl URIError
      else if is_high_surrogate c then
        (case cs of
           [] \<Rightarrow> Inl URIError
         | d # ds \<Rightarrow>
             if is_low_surrogate d then
               (case utf8_parse ds of
                  Inl e \<Rightarrow> Inl e
                | Inr bs \<Rightarrow> Inr (utf8_of_codepoint (pair_codepoint c d) @ bs))
             else Inl URIError)
      else
        (case utf8_parse cs of
           Inl e \<Rightarrow> Inl e
         | Inr bs \<Rightarrow> Inr (utf8_of_codepoint (uint c) @ bs)))"

fun well_formed :: "jsstring \<Rightarrow> bool" where
  \<comment> \<open>every surrogate is half of a pair\<close>
  "well_formed [] = True"
| "well_formed (c # cs) =
     (if is_low_surrogate c then False
      else if is_high_surrogate c then
        (case cs of [] \<Rightarrow> False | d # ds \<Rightarrow> is_low_surrogate d \<and> well_formed ds)
      else well_formed cs)"

text \<open>
  \<^verbatim>\<open>CryptoJS.enc.Utf8.stringify(wordArray)\<close> is
  \<^verbatim>\<open>decodeURIComponent(escape(Latin1.stringify(wordArray)))\<close>, and any exception of it is
  rethrown as \<^verbatim>\<open>Error('Malformed UTF-8 data')\<close>. \<^verbatim>\<open>decodeURIComponent\<close> accepts exactly
  the valid UTF-8 encodings of code points: a lead byte \<^verbatim>\<open>C2..DF\<close>, \<^verbatim>\<open>E0..EF\<close> or
  \<^verbatim>\<open>F0..F4\<close> with its continuation bytes \<^verbatim>\<open>80..BF\<close>, no overlong form, no surrogate, no
  value above \<^verbatim>\<open>10FFFF\<close>. A code point from \<^verbatim>\<open>10000\<close> on becomes a surrogate pair.
\<close>

definition is_continuation :: "byte \<Rightarrow> bool" where
  "is_continuation b = (0x80 \<le> uint b \<and> uint b < 0xC0)"

definition codeunits_of_codepoint :: "int \<Rightarrow> jsstring" where
  "codeunits_of_codepoint v =
     (if v < 0x10000 then [of_int v]
      else [of_int (0xD800 + (v - 0x10000) div 1024), of_int (0xDC00 + (v - 0x10000) mod 1024)])"

definition value2 :: "byte \<Rightarrow> byte \<Rightarrow> int" where
  \<comment> \<open>the value of a sequence of two bytes\<close>
  "value2 b0 b1 = (uint b0 - 0xC0) * 64 + (uint b1 - 0x80)"

definition value3 :: "byte \<Rightarrow> byte \<Rightarrow> byte \<Rightarrow> int" where
  "value3 b0 b1 b2 = (uint b0 - 0xE0) * 4096 + (uint b1 - 0x80) * 64 + (uint b2 - 0x80)"

definition value4 :: "byte \<Rightarrow> byte \<Rightarrow> byte \<Rightarrow> byte \<Rightarrow> int" where
  "value4 b0 b1 b2 b3 =
     (uint b0 - 0xF0) * 262144 + (uint b1 - 0x80) * 4096 + (uint b2 - 0x80) * 64
     + (uint b3 - 0x80)"

definition valid3 :: "byte \<Rightarrow> byte \<Rightarrow> byte \<Rightarrow> bool" where
  \<comment> \<open>continuation bytes, not an overlong form, not a surrogate\<close>
  "valid3 b0 b1 b2 =
     (is_continuation b1 \<and> is_continuation b2 \<and> 0x800 \<le> value3 b0 b1 b2
      \<and> \<not> (0xD800 \<le> value3 b0 b1 b2 \<and> value3 b0 b1 b2 < 0xE000))"

definition valid4 :: "byte \<Rightarrow> byte \<Rightarrow> byte \<Rightarrow> byte \<Rightarrow> bool" where
  \<comment> \<open>continuation bytes, not an overlong form, not above \<^verbatim>\<open>10FFFF\<close>\<close>
  "valid4 b0 b1 b2 b3 =
     (is_continuation b1 \<and> is_continuation b2 \<and> is_continuation b3
      \<and> 0x10000 \<le> value4 b0 b1 b2 b3 \<and> value4 b0 b1 b2 b3 < 0x110000)"

fun utf8_stringify :: "byte list \<Rightarrow> js_error + jsstring" where
  "utf8_stringify [] = Inr []"
| "utf8_stringify (b0 # bs) =
     (if uint b0 < 0x80 then
        (case utf8_stringify bs of Inl e \<Rightarrow> Inl e | Inr s \<Rightarrow> Inr (of_int (uint b0) # s))
      else if 0xC2 \<le> uint b0 \<and> uint b0 < 0xE0 then
        (case bs of
           b1 # r \<Rightarrow>
             if is_continuation b1 then
               (case utf8_stringify r of
                  Inl e \<Rightarrow> Inl e
                | Inr s \<Rightarrow> Inr (of_int (value2 b0 b1) # s))
             else Inl MalformedUtf8
         | _ \<Rightarrow> Inl MalformedUtf8)
      else if 0xE0 \<le> uint b0 \<and> uint b0 < 0xF0 then
        (case bs of
           b1 # b2 # r \<Rightarrow>
             if valid3 b0 b1 b2 then
               (case utf8_stringify r of
                  Inl e \<Rightarrow> Inl e
                | Inr s \<Rightarrow> Inr (of_int (value3 b0 b1 b2) # s))
             else Inl MalformedUtf8
         | _ \<Rightarrow> Inl MalformedUtf8)
      else if 0xF0 \<le> uint b0 \<and> uint b0 < 0xF5 then
        (case bs of
           b1 # b2 # b3 # r \<Rightarrow>
             if valid4 b0 b1 b2 b3 then
               (case utf8_stringify r of
                  Inl e \<Rightarrow> Inl e
                | Inr s \<Rightarrow> Inr (codeunits_of_codepoint (value4 b0 b1 b2 b3) @ s))
             else Inl MalformedUtf8
         | _ \<Rightarrow> Inl MalformedUtf8)
      else Inl MalformedUtf8)"

section \<open>Base64 text\<close>

definition base64_map :: jsstring where
  \<comment> \<open>the alphabet of CryptoJS and of \<^verbatim>\<open>btoa\<close>; the character at index 64 is the padding\<close>
  "base64_map = lit ''ABCDEFGHIJKLMNOPQRSTUVWXYZabcdefghijklmnopqrstuvwxyz0123456789+/=''"

definition b64char :: "int \<Rightarrow> jschar" where
  \<comment> \<open>\<^verbatim>\<open>map.charAt(d)\<close> for a six-bit value\<close>
  "b64char d =
     of_int (if d < 26 then 65 + d else if d < 52 then 71 + d
             else if d < 62 then d - 4 else if d = 62 then 43 else 47)"

definition padChar :: jschar where
  "padChar = 61"

definition reverseMap :: "jschar \<Rightarrow> int option" where
  \<comment> \<open>the index of a character in the alphabet; \<open>None\<close> is JavaScript's \<^verbatim>\<open>undefined\<close>\<close>
  "reverseMap c =
     (let u = uint c in
      if 65 \<le> u \<and> u \<le> 90 then Some (u - 65)
      else if 97 \<le> u \<and> u \<le> 122 then Some (u - 71)
      else if 48 \<le> u \<and> u \<le> 57 then Some (u + 4)
      else if u = 43 then Some 62
      else if u = 47 then Some 63
      else if u = 61 then Some 64
      else None)"

definition sextet :: "jschar \<Rightarrow> int" where
  \<comment> \<open>\<^verbatim>\<open>reverseMap[c]\<close> as an operand of a shift: \<^verbatim>\<open>undefined\<close> counts as 0\<close>
  "sextet c = (case reverseMap c of Some d \<Rightarrow> d | None \<Rightarrow> 0)"

text \<open>
  \<^verbatim>\<open>CryptoJS.enc.Base64.stringify\<close> and \<^verbatim>\<open>btoa\<close> write four characters for every three
  bytes, and for a last group of one or two bytes two or three characters and the
  padding up to four.
\<close>

fun base64_encode :: "byte list \<Rightarrow> jsstring" where
  "base64_encode [] = []"
| "base64_encode [a] =
     [b64char (uint a div 4), b64char (uint a mod 4 * 16), padChar, padChar]"
| "base64_encode [a, b] =
     [b64char (uint a div 4), b64char (uint a mod 4 * 16 + uint b div 16),
      b64char (uint b mod 16 * 4), padChar]"
| "base64_encode (a # b # c # bs) =
     b64char (uint a div 4) # b64char (uint a mod 4 * 16 + uint b div 16)
     # b64char (uint b mod 16 * 4 + uint c div 64) # b64char (uint c mod 64)
     # base64_encode bs"

fun base64_body :: "byte list \<Rightarrow> jsstring" where
  \<comment> \<open>the characters of \<open>base64_encode\<close> before the padding\<close>
  "base64_body [] = []"
| "base64_body [a] = [b64char (uint a div 4), b64char (uint a mod 4 * 16)]"
| "base64_body [a, b] =
     [b64char (uint a div 4), b64char (uint a mod 4 * 16 + uint b div 16),
      b64char (uint b mod 16 * 4)]"
| "base64_body (a # b # c # bs) =
     b64char (uint a div 4) # b64char (uint a mod 4 * 16 + uint b div 16)
     # b64char (uint b mod 16 * 4 + uint c div 64) # b64char (uint c mod 64)
     # base64_body bs"

text \<open>
  \<^verbatim>\<open>parseLoop\<close> of CryptoJS: at every index \<open>i\<close> that is not a multiple of 4 one byte is
  made of the characters \<open>i - 1\<close> and \<open>i\<close>,
  \<^verbatim>\<open>(reverseMap[s[i-1]] << (i % 4) * 2) | (reverseMap[s[i]] >>> (6 - (i % 4) * 2))\<close>.
  The bits of the left operand above the eighth repeat the low bits of the byte before,
  or fall off the word, so each byte is the value below modulo 256. No character is
  refused.
\<close>

definition join1 :: "jschar \<Rightarrow> jschar \<Rightarrow> byte" where
  "join1 p q = of_int (sextet p * 4 + sextet q div 16)"

definition join2 :: "jschar \<Rightarrow> jschar \<Rightarrow> byte" where
  "join2 p q = of_int (sextet p * 16 + sextet q div 4)"

definition join3 :: "jschar \<Rightarrow> jschar \<Rightarrow> byte" where
  "join3 p q = of_int (sextet p * 64 + sextet q)"

fun parseLoop :: "jsstring \<Rightarrow> byte list" where
  "parseLoop (p # q # r # s # cs) = join1 p q # join2 q r # join3 r s # parseLoop cs"
| "parseLoop [p, q, r] = [join1 p q, join2 q r]"
| "parseLoop [p, q] = [join1 p q]"
| "parseLoop _ = []"

definition base64_parse :: "jsstring \<Rightarrow> byte list" where
  \<comment> \<open>\<^verbatim>\<open>CryptoJS.enc.Base64.parse\<close>: the string is cut at its first padding character\<close>
  "base64_parse s = parseLoop (takeWhile (\<lambda>c. c \<noteq> padChar) s)"

text \<open>
  The browser's \<^verbatim>\<open>btoa\<close> throws on a character above \<^verbatim>\<open>U+00FF\<close>. \<^verbatim>\<open>atob\<close> removes ASCII
  whitespace, then one or two trailing padding characters when the length is a multiple
  of 4, and throws when the rest has length 1 modulo 4 or holds a character outside the
  62 letters and digits, \<^verbatim>\<open>+\<close> and \<^verbatim>\<open>/\<close>.
\<close>

definition btoa :: "jsstring \<Rightarrow> js_error + jsstring" where
  "btoa binary =
     (if list_all (\<lambda>c. uint c < 256) binary then Inr (base64_encode (map ucast binary))
      else Inl InvalidCharacterError)"

definition ascii_whitespace :: "jschar \<Rightarrow> bool" where
  "ascii_whitespace c = (c = 9 \<or> c = 10 \<or> c = 12 \<or> c = 13 \<or> c = 32)"

definition strip_padding :: "jsstring \<Rightarrow> jsstring" where
  "strip_padding s =
     (if length s mod 4 = 0 \<and> s \<noteq> [] \<and> last s = padChar then
        (if butlast s \<noteq> [] \<and> last (butlast s) = padChar then butlast (butlast s)
         else butlast s)
      else s)"

definition in_alphabet :: "jschar \<Rightarrow> bool" where
  "in_alphabet c = (case reverseMap c of Some d \<Rightarrow> d < 64 | None \<Rightarrow> False)"

definition atob :: "jsstring \<Rightarrow> js_error + jsstring" where
  "atob s =
     (let d = strip_padding (filter (\<lambda>c. \<not> ascii_whitespace c) s) in
      if length d mod 4 = 1 \<or> \<not> list_all in_alphabet d then Inl InvalidCharacterError
      else Inr (map ucast (parseLoop d)))"

definition arrayBufferToBase64 :: "byte list \<Rightarrow> js_error + jsstring" where
  \<comment> \<open>\<^verbatim>\<open>String.fromCharCode\<close> of every byte, then \<^verbatim>\<open>btoa\<close>\<close>
  "arrayBufferToBase64 buffer = btoa (map ucast buffer)"

definition base64ToArrayBuffer :: "jsstring \<Rightarrow> js_error + byte list" where
  \<comment> \<open>\<^verbatim>\<open>atob\<close>, then \<^verbatim>\<open>charCodeAt\<close> of every character into a \<^verbatim>\<open>Uint8Array\<close>\<close>
  "base64ToArrayBuffer base64 =
     (case atob base64 of Inl e \<Rightarrow> Inl e | Inr binary \<Rightarrow> Inr (map ucast binary))"

section \<open>AES in CBC mode with PKCS#7 padding\<close>

text \<open>
  The block transformation of AES belongs to CryptoJS and is a parameter of the model:
  a \<open>cipher\<close> gives, for the bytes of a key, the transformation of one 16-byte block in
  each direction. Everything around it (padding, chaining, the encodings) is written
  out. \<open>block_inverse\<close> says what is used of AES under one key: decrypting a block undoes
  encrypting it.
\<close>

type_synonym block = "byte list"

record cipher =
  encryptBlock :: "byte list \<Rightarrow> block \<Rightarrow> block"
  decryptBlock :: "byte list \<Rightarrow> block \<Rightarrow> block"

definition block_inverse :: "cipher \<Rightarrow> byte list \<Rightarrow> bool" where
  "block_inverse aes key =
     (\<forall>b. length b = 16 \<longrightarrow>
        length (encryptBlock aes key b) = 16 \<and> decryptBlock aes key (encryptBlock aes key b) = b)"

definition aes256 :: "cipher \<Rightarrow> bool" where
  \<comment> \<open>the cipher is invertible under every key of 32 bytes, as AES-256 is\<close>
  "aes256 aes = (\<forall>key. length key = 32 \<longrightarrow> block_inverse aes key)"

definition valid_key :: "jsstring \<Rightarrow> bool" where
  \<comment> \<open>64 hexadecimal digits: 256 bits\<close>
  "valid_key k = (is_hex k \<and> length k = 64)"

definition block16 :: "byte list \<Rightarrow> block" where
  \<comment> \<open>four words read from an array: what lies beyond its end reads as zero\<close>
  "block16 bs = take 16 (bs @ replicate 16 0)"

definition xorBlock :: "block \<Rightarrow> block \<Rightarrow> block" where
  "xorBlock ws blk = map2 (XOR) (block16 ws) (block16 blk)"

fun blocks :: "byte list \<Rightarrow> block list" where
  "blocks [] = []"
| "blocks (b # bs) = block16 (take 16 (b # bs)) # blocks (drop 15 bs)"

definition pkcs7_pad :: "byte list \<Rightarrow> byte list" where
  "pkcs7_pad data =
     (let nPaddingBytes = 16 - length data mod 16
      in data @ replicate nPaddingBytes (of_nat nPaddingBytes))"

definition pkcs7_unpad :: "byte list \<Rightarrow> nat \<Rightarrow> byte list" where
  \<comment> \<open>\<^verbatim>\<open>sigBytes -= words[(sigBytes - 1) >>> 2] & 0xff\<close>, with no check of the padding;
      \<open>data\<close> holds the whole processed blocks and \<open>n\<close> is \<^verbatim>\<open>sigBytes\<close>\<close>
  "pkcs7_unpad data n =
     (let k = 4 * ((n - 1) div 4) + 3;
          nPaddingBytes = (if n = 0 \<or> length data \<le> k then 0 else unat (data ! k))
      in take (n - nPaddingBytes) data)"

fun cbc_encrypt :: "(block \<Rightarrow> block) \<Rightarrow> block \<Rightarrow> block list \<Rightarrow> block list" where
  "cbc_encrypt E prev [] = []"
| "cbc_encrypt E prev (b # bs) =
     (let c = block16 (E (xorBlock b prev)) in c # cbc_encrypt E c bs)"

fun cbc_decrypt :: "(block \<Rightarrow> block) \<Rightarrow> block \<Rightarrow> block list \<Rightarrow> block list" where
  "cbc_decrypt D prev [] = []"
| "cbc_decrypt D prev (c # cs) = xorBlock (block16 (D c)) prev # cbc_decrypt D c cs"

definition AES_encrypt :: "cipher \<Rightarrow> jsstring \<Rightarrow> byte list \<Rightarrow> byte list \<Rightarrow> js_error + byte list" where
  \<comment> \<open>\<^verbatim>\<open>CryptoJS.AES.encrypt(message, key, {iv, mode: CBC, padding: Pkcs7}).ciphertext\<close>\<close>
  "AES_encrypt aes message key ivBytes =
     (case utf8_parse message of
        Inl e \<Rightarrow> Inl e
      | Inr data \<Rightarrow>
          Inr (concat (cbc_encrypt (encryptBlock aes key) (block16 ivBytes) (blocks (pkcs7_pad data)))))"

definition AES_decrypt :: "cipher \<Rightarrow> byte list \<Rightarrow> byte list \<Rightarrow> byte list \<Rightarrow> byte list" where
  \<comment> \<open>\<^verbatim>\<open>CryptoJS.AES.decrypt({ciphertext}, key, {iv, mode: CBC, padding: Pkcs7})\<close>:
      the significant bytes of the result\<close>
  "AES_decrypt aes ctBytes key ivBytes =
     pkcs7_unpad (concat (cbc_decrypt (decryptBlock aes key) (block16 ivBytes) (blocks ctBytes)))
       (length ctBytes)"

section \<open>Text and file encryption (\<^verbatim>\<open>lib/crypto.js\<close>)\<close>

record encrypted_text =
  ciphertext :: jsstring
  iv :: jsstring

definition encryptText :: "cipher \<Rightarrow> entropy \<Rightarrow> jsstring \<Rightarrow> jsstring \<Rightarrow> js_error + encrypted_text" where
  "encryptText aes rnd plaintext key =
     (let ivHex = generateIV rnd;
          keyWordArray = hex_parse key;
          ivWordArray = hex_parse ivHex
      in case AES_encrypt aes plaintext keyWordArray ivWordArray of
           Inl e \<Rightarrow> Inl e
         | Inr encrypted \<Rightarrow> Inr \<lparr>ciphertext = base64_encode encrypted, iv = ivHex\<rparr>)"

definition decryptText_body :: "cipher \<Rightarrow> jsstring \<Rightarrow> jsstring \<Rightarrow> jsstring \<Rightarrow> js_error + jsstring" where
  \<comment> \<open>the statements inside \<^verbatim>\<open>try\<close>\<close>
  "decryptText_body aes ctext key ivHex =
     (let keyWordArray = hex_parse key;
          ivWordArray = hex_parse ivHex;
          decrypted = AES_decrypt aes (base64_parse ctext) keyWordArray ivWordArray
      in utf8_stringify decrypted)"

definition decryptText :: "cipher \<Rightarrow> jsstring \<Rightarrow> jsstring \<Rightarrow> jsstring \<Rightarrow> jsstring option" where
  \<comment> \<open>\<open>None\<close> is the \<^verbatim>\<open>null\<close> that the \<^verbatim>\<open>catch\<close> branch returns\<close>
  "decryptText aes ctext key ivHex =
     (case decryptText_body aes ctext key ivHex of Inl error \<Rightarrow> None | Inr s \<Rightarrow> Some s)"

record js_file =
  f_name :: jsstring
  f_type :: jsstring
  f_size :: nat
  f_content :: "byte list"

record encrypted_file =
  ef_encryptedData :: jsstring
  ef_iv :: jsstring
  ef_filename :: jsstring
  ef_fileType :: jsstring
  ef_fileSize :: nat

definition encryptFile :: "cipher \<Rightarrow> entropy \<Rightarrow> js_file \<Rightarrow> jsstring \<Rightarrow> js_error + encrypted_file" where
  \<comment> \<open>the file is read without error: \<^verbatim>\<open>readFileAsArrayBuffer\<close> resolves to its content\<close>
  "encryptFile aes rnd file key =
     (case arrayBufferToBase64 (f_content file) of
        Inl e \<Rightarrow> Inl e
      | Inr base64Data \<Rightarrow>
          (let ivHex = generateIV rnd;
               keyWordArray = hex_parse key;
               ivWordArray = hex_parse ivHex
           in case AES_encrypt aes base64Data keyWordArray ivWordArray of
                Inl e \<Rightarrow> Inl e
              | Inr encrypted \<Rightarrow>
                  Inr \<lparr>ef_encryptedData = base64_encode encrypted, ef_iv = ivHex,
                       ef_filename = f_name file,
                       ef_fileType = (if f_type file = [] then lit ''application/octet-stream''
                                      else f_type file),
                       ef_fileSize = f_size file\<rparr>))"

definition decryptFile_body :: "cipher \<Rightarrow> jsstring \<Rightarrow> jsstring \<Rightarrow> jsstring \<Rightarrow> js_error + byte list" where
  "decryptFile_body aes edata key ivHex =
     (let keyWordArray = hex_parse key;
          ivWordArray = hex_parse ivHex;
          decrypted = AES_decrypt aes (base64_parse edata) keyWordArray ivWordArray
      in case utf8_stringify decrypted of
           Inl e \<Rightarrow> Inl e
         | Inr base64Data \<Rightarrow> base64ToArrayBuffer base64Data)"

definition decryptFile :: "cipher \<Rightarrow> jsstring \<Rightarrow> jsstring \<Rightarrow> jsstring \<Rightarrow> byte list option" where
  "decryptFile aes edata key ivHex =
     (case decryptFile_body aes edata key ivHex of Inl error \<Rightarrow> None | Inr buffer \<Rightarrow> Some buffer)"

section \<open>SHA-256 and the PIN digest\<close>

text \<open>
  \<^verbatim>\<open>CryptoJS.SHA256\<close> works on 32-bit values held in JavaScript numbers. Here such a value
  is an \<open>int\<close> from 0 to \<open>2^32 - 1\<close>, with the wrap-around of \<^verbatim>\<open>| 0\<close> and of the shifts
  written out.
\<close>

definition sha256_K :: "int list" where
  "sha256_K =
    [1116352408, 1899447441, 3049323471, 3921009573, 961987163, 1508970993,
     2453635748, 2870763221, 3624381080, 310598401, 607225278, 1426881987,
     1925078388, 2162078206, 2614888103, 3248222580, 3835390401, 4022224774,
     264347078, 604807628, 770255983, 1249150122, 1555081692, 1996064986,
     2554220882, 2821834349, 2952996808, 3210313671, 3336571891, 3584528711,
     113926993, 338241895, 666307205, 773529912, 1294757372, 1396182291,
     1695183700, 1986661051, 2177026350, 2456956037, 2730485921, 2820302411,
     3259730800, 3345764771, 3516065817, 3600352804, 4094571909, 275423344,
     430227734, 506948616, 659060556, 883997877, 958139571, 1322822218,
     1537002063, 1747873779, 1955562222, 2024104815, 2227730452, 2361852424,
     2428436474, 2756734187, 3204031479, 3329325298]"

type_synonym sha_state = "int \<times> int \<times> int \<times> int \<times> int \<times> int \<times> int \<times> int"

definition sha256_H0 :: sha_state where
  "sha256_H0 = (1779033703, 3144134277, 1013904242, 2773480762,
                1359893119, 2600822924, 528734635, 1541459225)"

definition u32 :: "int \<Rightarrow> int" where
  "u32 x = x mod 4294967296"

definition rotr32 :: "nat \<Rightarrow> int \<Rightarrow> int" where
  \<comment> \<open>\<^verbatim>\<open>(x << (32 - n)) | (x >>> n)\<close>\<close>
  "rotr32 n x = x div 2 ^ n + x mod 2 ^ n * 2 ^ (32 - n)"

fun sha256_schedule :: "nat \<Rightarrow> int list \<Rightarrow> int list" where
  "sha256_schedule 0 W = W"
| "sha256_schedule (Suc n) W =
     (let i = length W;
          gamma0x = W ! (i - 15);
          gamma0 = rotr32 7 gamma0x XOR rotr32 18 gamma0x XOR gamma0x div 2 ^ 3;
          gamma1x = W ! (i - 2);
          gamma1 = rotr32 17 gamma1x XOR rotr32 19 gamma1x XOR gamma1x div 2 ^ 10
      in sha256_schedule n (W @ [u32 (gamma0 + W ! (i - 7) + gamma1 + W ! (i - 16))]))"

definition sha256_round :: "sha_state \<Rightarrow> int \<times> int \<Rightarrow> sha_state" where
  "sha256_round H kw =
     (case H of (a, b, c, d, e, f, g, h) \<Rightarrow> case kw of (k, w) \<Rightarrow>
      let ch = (e AND f) XOR ((4294967295 - e) AND g);
          maj = (a AND b) XOR (a AND c) XOR (b AND c);
          sigma0 = rotr32 2 a XOR rotr32 13 a XOR rotr32 22 a;
          sigma1 = rotr32 6 e XOR rotr32 11 e XOR rotr32 25 e;
          t1 = h + sigma1 + ch + k + w;
          t2 = sigma0 + maj
      in (u32 (t1 + t2), a, b, c, u32 (d + t1), e, f, g))"

definition sha256_block :: "sha_state \<Rightarrow> int list \<Rightarrow> sha_state" where
  \<comment> \<open>\<^verbatim>\<open>_doProcessBlock\<close>: 64 rounds over the 16 words of a block\<close>
  "sha256_block H M =
     (case H of (a, b, c, d, e, f, g, h) \<Rightarrow>
      case foldl sha256_round H (zip sha256_K (sha256_schedule 48 M)) of
        (a', b', c', d', e', f', g', h') \<Rightarrow>
          (u32 (a + a'), u32 (b + b'), u32 (c + c'), u32 (d + d'),
           u32 (e + e'), u32 (f + f'), u32 (g + g'), u32 (h + h')))"

fun be_words :: "byte list \<Rightarrow> int list" where
  "be_words (a # b # c # d # bs) =
     (uint a * 16777216 + uint b * 65536 + uint c * 256 + uint d) # be_words bs"
| "be_words _ = []"

definition be_bytes :: "int \<Rightarrow> byte list" where
  "be_bytes w = [of_int (w div 16777216), of_int (w div 65536), of_int (w div 256), of_int w]"

fun groups16 :: "nat \<Rightarrow> int list \<Rightarrow> int list list" where
  \<comment> \<open>the first \<open>n\<close> blocks of 16 words\<close>
  "groups16 0 ws = []"
| "groups16 (Suc n) ws = take 16 ws # groups16 n (drop 16 ws)"

definition sha256_pad :: "byte list \<Rightarrow> byte list" where
  \<comment> \<open>\<^verbatim>\<open>_doFinalize\<close>: the bit \<^verbatim>\<open>0x80\<close>, zeros, and the bit length in the last two words\<close>
  "sha256_pad m =
     (let nBitsTotal = int (length m) * 8
      in m @ [0x80] @ replicate ((119 - length m mod 64) mod 64) 0
           @ be_bytes (nBitsTotal div 4294967296) @ be_bytes nBitsTotal)"

definition SHA256 :: "byte list \<Rightarrow> byte list" where
  "SHA256 m =
     (let padded = sha256_pad m in
      case foldl sha256_block sha256_H0 (groups16 (length padded div 64) (be_words padded)) of
        (a, b, c, d, e, f, g, h) \<Rightarrow> concat (map be_bytes [a, b, c, d, e, f, g, h]))"

definition hashPin :: "jsstring \<Rightarrow> js_error + jsstring" where
  \<comment> \<open>\<^verbatim>\<open>CryptoJS.SHA256(pin).toString()\<close>: a string is hashed as its UTF-8 bytes and the
      digest is printed in hexadecimal\<close>
  "hashPin p =
     (case utf8_parse p of Inl e \<Rightarrow> Inl e | Inr bytes \<Rightarrow> Inr (hex_stringify (SHA256 bytes)))"

section \<open>The page \<^verbatim>\<open>CreateSecret.jsx\<close>\<close>

definition MAX_FILE_SIZE :: nat where
  "MAX_FILE_SIZE = 10 * 1024 * 1024"

definition MAX_FILES :: nat where
  "MAX_FILES = 5"

record form_state =
  secretText :: jsstring
  expiryMinutes :: jsstring
  oneTimeView :: bool
  usePin :: bool
  pin :: jsstring
  files :: "js_file list"

definition initial_state :: form_state where
  \<comment> \<open>the arguments of the \<^verbatim>\<open>useState\<close> calls\<close>
  "initial_state =
     \<lparr>secretText = [], expiryMinutes = lit ''60'', oneTimeView = True, usePin = False,
      pin = [], files = []\<rparr>"

definition total_size :: "js_file list \<Rightarrow> nat" where
  \<comment> \<open>\<^verbatim>\<open>fs.reduce((sum, f) => sum + f.size, 0)\<close>\<close>
  "total_size fs = foldl (\<lambda>sum f. sum + f_size f) 0 fs"

text \<open>
  A handler returns the new state and the toast it shows, if any. \<^verbatim>\<open>handleFileSelect\<close>
  and \<^verbatim>\<open>removeFile\<close> call nothing but \<^verbatim>\<open>toast.error\<close> and \<^verbatim>\<open>setFiles\<close>.
\<close>

definition handleFileSelect :: "form_state \<Rightarrow> js_file list \<Rightarrow> form_state \<times> jsstring option" where
  "handleFileSelect st selectedFiles =
     (let fileArray = selectedFiles in
      if length (files st) + length fileArray > MAX_FILES then
        (st, Some (lit ''Maximum 5 files allowed''))
      else
        (let currentSize = total_size (files st);
             newSize = total_size fileArray
         in if currentSize + newSize > MAX_FILE_SIZE then
              (st, Some (lit ''Total file size exceeds 10MB limit''))
            else (st\<lparr>files := files st @ fileArray\<rparr>, None)))"

definition removeFile :: "form_state \<Rightarrow> nat \<Rightarrow> form_state" where
  \<comment> \<open>\<^verbatim>\<open>setFiles(prev => prev.filter((_, i) => i !== index))\<close>\<close>
  "removeFile st index =
     st\<lparr>files := map snd (filter (\<lambda>(i, f). i \<noteq> index) (zip [0..<length (files st)] (files st)))\<rparr>"

datatype file_event = Select "js_file list" | Remove nat

fun file_step :: "form_state \<Rightarrow> file_event \<Rightarrow> form_state" where
  "file_step st (Select selectedFiles) = fst (handleFileSelect st selectedFiles)"
| "file_step st (Remove index) = removeFile st index"

definition admitted :: "js_file list \<Rightarrow> bool" where
  \<comment> \<open>the admission-control bound: at most 5 files and at most 10 MB in total\<close>
  "admitted fs = (length fs \<le> 5 \<and> total_size fs \<le> 10485760)"

definition js_whitespace :: "jschar \<Rightarrow> bool" where
  \<comment> \<open>the white space and line terminators that \<^verbatim>\<open>String.prototype.trim\<close> removes\<close>
  "js_whitespace c =
     (let u = uint c in
      (9 \<le> u \<and> u \<le> 13) \<or> u = 32 \<or> u = 160 \<or> u = 5760 \<or> (8192 \<le> u \<and> u \<le> 8202)
      \<or> u = 8232 \<or> u = 8233 \<or> u = 8239 \<or> u = 8287 \<or> u = 12288 \<or> u = 65279)"

definition trim_is_empty :: "jsstring \<Rightarrow> bool" where
  \<comment> \<open>\<^verbatim>\<open>!s.trim()\<close>\<close>
  "trim_is_empty s = list_all js_whitespace s"

definition parseInt :: "jsstring \<Rightarrow> int option" where
  \<comment> \<open>\<^verbatim>\<open>parseInt\<close> on a string that starts with decimal digits, as the values of
      \<^verbatim>\<open>expiryOptions\<close> do; \<open>None\<close> is \<^verbatim>\<open>NaN\<close>. Leading white space, a sign and the
      prefix \<^verbatim>\<open>0x\<close> are not modelled.\<close>
  "parseInt s =
     (let ds = takeWhile (\<lambda>c. 48 \<le> uint c \<and> uint c \<le> 57) s in
      if ds = [] then None else Some (foldl (\<lambda>a c. 10 * a + (uint c - 48)) 0 ds))"

record file_payload =
  fp_encrypted_data :: jsstring
  fp_iv :: jsstring
  fp_filename :: jsstring
  fp_file_type :: jsstring
  fp_file_size :: nat

record secret_payload =
  sp_encryptedData :: jsstring
  sp_iv :: jsstring
  sp_pinHash :: "jsstring option"
  sp_expiryMinutes :: "int option"
  sp_oneTimeView :: bool
  sp_files :: "file_payload list option"

record share_state =
  secretId :: jsstring
  encryptionKey :: jsstring
  nav_expiryMinutes :: "int option"
  nav_oneTimeView :: bool
  hasPin :: bool
  hasFiles :: bool
  fileCount :: nat

text \<open>
  One run of \<^verbatim>\<open>handleCreate\<close> draws random bytes once for the key, once for the IV of
  the text and once for the IV of each file. \<^verbatim>\<open>createSecret\<close> (of \<^verbatim>\<open>lib/api\<close>, with the
  server behind it) is a parameter: it answers a payload with an identifier or fails.
\<close>

record create_entropy =
  key_rnd :: entropy
  text_rnd :: entropy
  file_rnd :: "nat \<Rightarrow> entropy"

datatype create_result =
    Rejected jsstring                      \<comment> \<open>a validation toast; nothing is computed or sent\<close>
  | Caught js_error                        \<comment> \<open>an exception before the request; nothing is sent\<close>
  | RequestFailed secret_payload js_error  \<comment> \<open>the request was sent and failed\<close>
  | Shared secret_payload share_state      \<comment> \<open>the request was sent; \<^verbatim>\<open>navigate('/share', ...)\<close>\<close>

fun collect :: "('e + 'a) list \<Rightarrow> 'e + 'a list" where
  \<comment> \<open>\<^verbatim>\<open>Promise.all\<close>: all the results, or a rejection\<close>
  "collect [] = Inr []"
| "collect (Inl e # rs) = Inl e"
| "collect (Inr x # rs) = (case collect rs of Inl e \<Rightarrow> Inl e | Inr xs \<Rightarrow> Inr (x # xs))"

definition encrypt_one :: "cipher \<Rightarrow> entropy \<Rightarrow> jsstring \<Rightarrow> js_file \<Rightarrow> js_error + file_payload" where
  \<comment> \<open>the function mapped over \<^verbatim>\<open>files\<close>\<close>
  "encrypt_one aes rnd key file =
     (case encryptFile aes rnd file key of
        Inl e \<Rightarrow> Inl e
      | Inr encrypted \<Rightarrow>
          Inr \<lparr>fp_encrypted_data = ef_encryptedData encrypted, fp_iv = ef_iv encrypted,
               fp_filename = ef_filename encrypted, fp_file_type = ef_fileType encrypted,
               fp_file_size = ef_fileSize encrypted\<rparr>)"

definition encrypt_files :: "cipher \<Rightarrow> (nat \<Rightarrow> entropy) \<Rightarrow> jsstring \<Rightarrow> js_file list \<Rightarrow> js_error + file_payload list option" where
  "encrypt_files aes rnds key fs =
     (if length fs > 0 then
        (case collect (map (\<lambda>(i, file). encrypt_one aes (rnds i) key file) (zip [0..<length fs] fs)) of
           Inl e \<Rightarrow> Inl e
         | Inr encryptedFiles \<Rightarrow> Inr (Some encryptedFiles))
      else Inr None)"

definition handleCreate ::
  "cipher \<Rightarrow> create_entropy \<Rightarrow> (secret_payload \<Rightarrow> js_error + jsstring) \<Rightarrow> form_state \<Rightarrow> create_result" where
  "handleCreate aes rnd createSecret st =
     (if trim_is_empty (secretText st) \<and> length (files st) = 0 then
        Rejected (lit ''Please enter a secret or add files to share'')
      else if usePin st \<and> (pin st = [] \<or> length (pin st) < 4) then
        Rejected (lit ''PIN must be at least 4 characters'')
      else
        (let key = generateEncryptionKey (key_rnd rnd) in
         case encryptText aes (text_rnd rnd)
                (if secretText st = [] then lit '' '' else secretText st) key of
           Inl e \<Rightarrow> Caught e
         | Inr enc \<Rightarrow>
             (case (if usePin st
                    then (case hashPin (pin st) of Inl e \<Rightarrow> Inl e | Inr h \<Rightarrow> Inr (Some h))
                    else Inr None) of
                Inl e \<Rightarrow> Caught e
              | Inr pinHash \<Rightarrow>
                  (case encrypt_files aes (file_rnd rnd) key (files st) of
                     Inl e \<Rightarrow> Caught e
                   | Inr encryptedFiles \<Rightarrow>
                       (let payload =
                              \<lparr>sp_encryptedData = ciphertext enc, sp_iv = iv enc,
                               sp_pinHash = pinHash,
                               sp_expiryMinutes = parseInt (expiryMinutes st),
                               sp_oneTimeView = oneTimeView st,
                               sp_files = encryptedFiles\<rparr>
                        in case createSecret payload of
                             Inl e \<Rightarrow> RequestFailed payload e
                           | Inr ident \<Rightarrow>
                               Shared payload
                                 \<lparr>secretId = ident, encryptionKey = key,
                                  nav_expiryMinutes = parseInt (expiryMinutes st),
                                  nav_oneTimeView = oneTimeView st,
                                  hasPin = usePin st,
                                  hasFiles = (length (files st) > 0),
                                  fileCount = length (files st)\<rparr>)))))"

fun request_of :: "create_result \<Rightarrow> secret_payload option" where
  \<comment> \<open>the argument of the call of \<^verbatim>\<open>createSecret\<close>, when there is one\<close>
  "request_of (RequestFailed payload e) = Some payload"
| "request_of (Shared payload s) = Some payload"
| "request_of (Rejected m) = None"
| "request_of (Caught e) = None"

definition pin_digest :: "form_state \<Rightarrow> js_error + jsstring option" where
  \<comment> \<open>\<^verbatim>\<open>usePin ? hashPin(pin) : null\<close>\<close>
  "pin_digest st =
     (if usePin st then (case hashPin (pin st) of Inl e \<Rightarrow> Inl e | Inr h \<Rightarrow> Inr (Some h))
      else Inr None)"

definition secret_or_space :: "form_state \<Rightarrow> jsstring" where
  \<comment> \<open>\<^verbatim>\<open>secretText || ' '\<close>\<close>
  "secret_or_space st = (if secretText st = [] then lit '' '' else secretText st)"

definition create_request :: "cipher \<Rightarrow> create_entropy \<Rightarrow> form_state \<Rightarrow> secret_payload option" where
  \<comment> \<open>the payload that \<open>handleCreate\<close> passes to \<^verbatim>\<open>createSecret\<close>, written on its own
      (see \<open>request_of_handleCreate\<close>)\<close>
  "create_request aes rnd st =
     (if trim_is_empty (secretText st) \<and> length (files st) = 0 then None
      else if usePin st \<and> (pin st = [] \<or> length (pin st) < 4) then None
      else
        (case encryptText aes (text_rnd rnd) (secret_or_space st)
                (generateEncryptionKey (key_rnd rnd)) of
           Inl e \<Rightarrow> None
         | Inr enc \<Rightarrow>
             (case pin_digest st of
                Inl e \<Rightarrow> None
              | Inr pinHash \<Rightarrow>
                  (case encrypt_files aes (file_rnd rnd) (generateEncryptionKey (key_rnd rnd))
                          (files st) of
                     Inl e \<Rightarrow> None
                   | Inr encryptedFiles \<Rightarrow>
                       Some \<lparr>sp_encryptedData = ciphertext enc, sp_iv = iv enc,
                             sp_pinHash = pinHash,
                             sp_expiryMinutes = parseInt (expiryMinutes st),
                             sp_oneTimeView = oneTimeView st,
                             sp_files = encryptedFiles\<rparr>))))"

definition key_blind :: "cipher \<Rightarrow> bool" where
  \<comment> \<open>the cipher encrypts every block the same way under every key\<close>
  "key_blind aes = (\<forall>k k' b. encryptBlock aes k b = encryptBlock aes k' b)"

section \<open>The secret protocol state machine\<close>

text \<open>
  Modelled from the spec: the server that stores envelopes and answers view requests is
  not among the sources. The definitions of this section follow sections 3, 4.4, 5 and 6
  of the specification: the fields of an envelope, the order of the checks of a view
  request (existence, expiry, one-time consumption, PIN digest), its three outcomes, and
  the consumption of a one-time envelope in the same atomic step as the successful
  response. The specification lets the server mark the record viewed or delete it; both
  are modelled.
\<close>

record envelope =
  encrypted_data :: jsstring
  env_iv :: jsstring
  pin_hash :: "jsstring option"
  expiry_minutes :: int
  one_time_view :: bool
  created_at :: int
  expires_at :: int
  viewed :: bool
  file_envelopes :: "file_payload list"

type_synonym store = "jsstring \<Rightarrow> envelope option"

datatype view_outcome = Success envelope | PinMismatch | Gone

datatype consumption = MarkViewed | DeleteRecord

definition consume :: "consumption \<Rightarrow> store \<Rightarrow> jsstring \<Rightarrow> envelope \<Rightarrow> store" where
  "consume how s ident e =
     (case how of
        MarkViewed \<Rightarrow> s(ident \<mapsto> e\<lparr>viewed := True\<rparr>)
      | DeleteRecord \<Rightarrow> s(ident := None))"

definition create_envelope :: "store \<Rightarrow> jsstring \<Rightarrow> int \<Rightarrow> secret_payload \<Rightarrow> int \<Rightarrow> store" where
  \<comment> \<open>state Created: \<open>expires_at = created_at + expiry_minutes\<close>, not yet viewed\<close>
  "create_envelope s ident now request minutes =
     s(ident \<mapsto>
        \<lparr>encrypted_data = sp_encryptedData request, env_iv = sp_iv request,
         pin_hash = sp_pinHash request, expiry_minutes = minutes,
         one_time_view = sp_oneTimeView request, created_at = now,
         expires_at = now + minutes, viewed = False,
         file_envelopes = (case sp_files request of None \<Rightarrow> [] | Some fs \<Rightarrow> fs)\<rparr>)"

definition view :: "consumption \<Rightarrow> store \<Rightarrow> jsstring \<Rightarrow> int \<Rightarrow> jsstring option \<Rightarrow> view_outcome \<times> store" where
  \<comment> \<open>one view request, as one atomic transaction on the store\<close>
  "view how s ident now supplied =
     (case s ident of
        None \<Rightarrow> (Gone, s)
      | Some e \<Rightarrow>
          if now > expires_at e then (Gone, s)
          else if one_time_view e \<and> viewed e then (Gone, s)
          else if pin_hash e \<noteq> None \<and> supplied \<noteq> pin_hash e then (PinMismatch, s)
          else (Success e, if one_time_view e then consume how s ident e else s))"

datatype request =
    View jsstring int "jsstring option"
  | Delete jsstring
  | Sweep int









section \<open>Concrete values\<close>

text \<open>
  Values at which the statements below are evaluated. \<open>xor_cipher\<close> stands in for AES
  there: it combines a block with the first 16 bytes of the key. Only \<open>block_inverse\<close>
  is ever used of a cipher, and \<open>xor_cipher\<close> has it under every key.
\<close>

definition xor_cipher :: cipher where
  "xor_cipher =
     \<lparr>encryptBlock = (\<lambda>key b. map2 (XOR) b (block16 key)),
      decryptBlock = (\<lambda>key b. map2 (XOR) b (block16 key))\<rparr>"

definition zero_cipher :: cipher where
  \<comment> \<open>a cipher that pays no attention to the key\<close>
  "zero_cipher = \<lparr>encryptBlock = (\<lambda>key b. b), decryptBlock = (\<lambda>key b. b)\<rparr>"

definition rnd_a :: entropy where
  "rnd_a i = of_nat (7 * i + 1)"

definition rnd_b :: entropy where
  "rnd_b i = of_nat (11 * i + 5)"

definition key_a :: jsstring where
  "key_a = lit ''000102030405060708090a0b0c0d0e0f101112131415161718191a1b1c1d1e1f''"

definition short_key :: jsstring where
  \<comment> \<open>32 hexadecimal digits: 16 bytes\<close>
  "short_key = lit ''000102030405060708090a0b0c0d0e0f''"

definition iv_a :: jsstring where
  "iv_a = lit ''0f0e0d0c0b0a09080706050403020100''"

definition lone_surrogate :: jsstring where
  "lone_surrogate = [0xD800]"

definition file_a :: js_file where
  "file_a = \<lparr>f_name = lit ''a.bin'', f_type = [], f_size = 3, f_content = [1, 2, 255]\<rparr>"

definition big_file :: js_file where
  "big_file = \<lparr>f_name = lit ''big.iso'', f_type = [], f_size = 6000000, f_content = []\<rparr>"

definition no_server :: "secret_payload \<Rightarrow> js_error + jsstring" where
  "no_server payload = Inr (lit ''id'')"



definition entropy_a :: create_entropy where
  "entropy_a = \<lparr>key_rnd = rnd_a, text_rnd = rnd_b, file_rnd = (\<lambda>i. rnd_a)\<rparr>"

definition entropy_b :: create_entropy where
  \<comment> \<open>as \<open>entropy_a\<close>, with other bytes for the key\<close>
  "entropy_b = \<lparr>key_rnd = rnd_b, text_rnd = rnd_b, file_rnd = (\<lambda>i. rnd_a)\<rparr>"

definition state_files_only :: form_state where
  \<comment> \<open>no text, one file, no PIN\<close>
  "state_files_only = initial_state\<lparr>files := [file_a]\<rparr>"

section \<open>SHA-256 as FIPS 180-4 defines it\<close>

text \<open>
  The definitions of this section are written from the standard (FIPS 180-4, sections 2.2,
  4.1.2, 4.2.2, 5.1.1, 5.2.1, 5.3.3 and 6.2), not from the library: words of 32 bits with
  addition modulo \<open>2^32\<close>, the six logical functions, the constants as roots of primes, the
  message schedule by its recurrence. They are the other side of the comparison with
  \<^const>\<open>SHA256\<close>.
\<close>

type_synonym word32 = "32 word"

definition ROTR :: "nat \<Rightarrow> word32 \<Rightarrow> word32" where
  \<comment> \<open>rotate right: \<open>(x >> n) \<or> (x << w - n)\<close>\<close>
  "ROTR n x = drop_bit n x OR push_bit (32 - n) x"

definition SHR :: "nat \<Rightarrow> word32 \<Rightarrow> word32" where
  "SHR n x = drop_bit n x"

definition Ch :: "word32 \<Rightarrow> word32 \<Rightarrow> word32 \<Rightarrow> word32" where
  "Ch x y z = (x AND y) XOR (NOT x AND z)"

definition Maj :: "word32 \<Rightarrow> word32 \<Rightarrow> word32 \<Rightarrow> word32" where
  "Maj x y z = (x AND y) XOR (x AND z) XOR (y AND z)"

definition BSIG0 :: "word32 \<Rightarrow> word32" where
  "BSIG0 x = ROTR 2 x XOR ROTR 13 x XOR ROTR 22 x"

definition BSIG1 :: "word32 \<Rightarrow> word32" where
  "BSIG1 x = ROTR 6 x XOR ROTR 11 x XOR ROTR 25 x"

definition SSIG0 :: "word32 \<Rightarrow> word32" where
  "SSIG0 x = ROTR 7 x XOR ROTR 18 x XOR SHR 3 x"

definition SSIG1 :: "word32 \<Rightarrow> word32" where
  "SSIG1 x = ROTR 17 x XOR ROTR 19 x XOR SHR 10 x"

text \<open>
  The constants are the first 32 bits of the fractional parts of the cube roots of the
  first 64 primes, and the initial hash value those of the square roots of the first 8.
  The first 32 fractional bits of the \<open>n\<close>-th root of \<open>p\<close> are the low 32 bits of the
  integer part of the \<open>n\<close>-th root of \<open>p * 2^(32 * n)\<close>.
\<close>

definition is_prime :: "int \<Rightarrow> bool" where
  "is_prime p = (1 < p \<and> (\<forall>d \<in> {2..p - 1}. p mod d \<noteq> 0))"

definition first_primes :: "int list" where
  \<comment> \<open>there are 64 primes up to 311\<close>
  "first_primes = filter is_prime [2..311]"

function floor_root_between :: "nat \<Rightarrow> int \<Rightarrow> int \<Rightarrow> int \<Rightarrow> int" where
  \<comment> \<open>the integer part of the \<open>n\<close>-th root of \<open>x\<close>, known to be at least \<open>lo\<close> and below \<open>hi\<close>\<close>
  "floor_root_between n x lo hi =
     (if hi - lo \<le> 1 then lo
      else let mid = (lo + hi) div 2
           in if mid ^ n \<le> x then floor_root_between n x mid hi
              else floor_root_between n x lo mid)"
  by pat_completeness auto
termination
  by (relation "measure (\<lambda>(n, x, lo, hi). nat (hi - lo))") auto

definition floor_root :: "nat \<Rightarrow> int \<Rightarrow> int" where
  "floor_root n x = floor_root_between n x 0 (x + 1)"

definition frac_root_bits :: "nat \<Rightarrow> int \<Rightarrow> word32" where
  "frac_root_bits n p = word_of_int (floor_root n (p * 2 ^ (32 * n)))"

definition fips_K :: "nat \<Rightarrow> word32" where
  "fips_K t = frac_root_bits 3 (first_primes ! t)"

type_synonym fips_state =
  "word32 \<times> word32 \<times> word32 \<times> word32 \<times> word32 \<times> word32 \<times> word32 \<times> word32"

definition fips_H0 :: fips_state where
  "fips_H0 =
     (frac_root_bits 2 (first_primes ! 0), frac_root_bits 2 (first_primes ! 1),
      frac_root_bits 2 (first_primes ! 2), frac_root_bits 2 (first_primes ! 3),
      frac_root_bits 2 (first_primes ! 4), frac_root_bits 2 (first_primes ! 5),
      frac_root_bits 2 (first_primes ! 6), frac_root_bits 2 (first_primes ! 7))"

text \<open>
  Padding (5.1.1), for a message of whole bytes: the bit 1 and seven zero bits are the byte
  \<^verbatim>\<open>80\<close>; the zero bytes that follow bring the length to 56 modulo 64; the last 8 bytes are
  the length of the message in bits, as a 64-bit number.
\<close>

definition fips_length :: "nat \<Rightarrow> byte list" where
  "fips_length l = map (\<lambda>i. ucast (drop_bit (8 * i) (word_of_nat l :: 64 word))) [7, 6, 5, 4, 3, 2, 1, 0]"

definition fips_pad :: "byte list \<Rightarrow> byte list" where
  "fips_pad m =
     m @ [0x80] @ replicate (nat ((55 - int (length m)) mod 64)) 0 @ fips_length (8 * length m)"

text \<open>
  Parsing (5.2.1): the padded message is \<open>N\<close> blocks of 512 bits, each of them 16 words of
  32 bits, the most significant byte first.
\<close>

definition fips_word :: "byte \<Rightarrow> byte \<Rightarrow> byte \<Rightarrow> byte \<Rightarrow> word32" where
  "fips_word a b c d = push_bit 24 (ucast a) OR push_bit 16 (ucast b) OR push_bit 8 (ucast c) OR ucast d"

definition fips_block_words :: "byte list \<Rightarrow> word32 list" where
  "fips_block_words B =
     map (\<lambda>j. fips_word (B ! (4 * j)) (B ! (4 * j + 1)) (B ! (4 * j + 2)) (B ! (4 * j + 3))) [0..<16]"

definition fips_blocks :: "byte list \<Rightarrow> word32 list list" where
  "fips_blocks bs = map (\<lambda>i. fips_block_words (take 64 (drop (64 * i) bs))) [0..<length bs div 64]"

text \<open>The hash computation (6.2.2): the message schedule, the 64 steps, the new hash value.\<close>

fun fips_W :: "word32 list \<Rightarrow> nat \<Rightarrow> word32" where
  "fips_W M t =
     (if t < 16 then M ! t
      else SSIG1 (fips_W M (t - 2)) + fips_W M (t - 7) + SSIG0 (fips_W M (t - 15))
           + fips_W M (t - 16))"

declare fips_W.simps [simp del]

definition fips_step :: "word32 list \<Rightarrow> fips_state \<Rightarrow> nat \<Rightarrow> fips_state" where
  "fips_step M v t =
     (case v of (a, b, c, d, e, f, g, h) \<Rightarrow>
      let T1 = h + BSIG1 e + Ch e f g + fips_K t + fips_W M t;
          T2 = BSIG0 a + Maj a b c
      in (T1 + T2, a, b, c, d + T1, e, f, g))"

definition fips_block :: "fips_state \<Rightarrow> word32 list \<Rightarrow> fips_state" where
  "fips_block H M =
     (case H of (h0, h1, h2, h3, h4, h5, h6, h7) \<Rightarrow>
      case foldl (fips_step M) H [0..<64] of
        (a, b, c, d, e, f, g, h) \<Rightarrow>
          (a + h0, b + h1, c + h2, d + h3, e + h4, f + h5, g + h6, h + h7))"

definition fips_bytes :: "word32 \<Rightarrow> byte list" where
  "fips_bytes w = map (\<lambda>i. ucast (drop_bit (8 * i) w)) [3, 2, 1, 0]"

definition sha256_fips :: "byte list \<Rightarrow> byte list" where
  "sha256_fips m =
     (case foldl fips_block fips_H0 (fips_blocks (fips_pad m)) of
        (h0, h1, h2, h3, h4, h5, h6, h7) \<Rightarrow>
          concat (map fips_bytes [h0, h1, h2, h3, h4, h5, h6, h7]))"

text \<open>
  The comparison reads a state of the library, eight numbers from 0 to \<open>2^32 - 1\<close>, as the
  values of eight words.
\<close>

definition word_values :: "fips_state \<Rightarrow> sha_state" where
  "word_values v =
     (case v of (a, b, c, d, e, f, g, h) \<Rightarrow>
        (uint a, uint b, uint c, uint d, uint e, uint f, uint g, uint h))"

definition is_root_bits :: "nat \<Rightarrow> int \<Rightarrow> int \<Rightarrow> bool" where
  \<comment> \<open>\<open>k\<close> is the first 32 fractional bits of the \<open>n\<close>-th root of \<open>p\<close>, for \<open>p\<close> below \<open>8 ^ n\<close>\<close>
  "is_root_bits n p k =
     (0 \<le> k \<and> k < 4294967296 \<and>
      (\<exists>i \<in> {0..7}. (i * 4294967296 + k) ^ n \<le> p * 2 ^ (32 * n)
                    \<and> p * 2 ^ (32 * n) < (i * 4294967296 + k + 1) ^ n))"

section \<open>Facts about words and hexadecimal text\<close>

lemma uint_byte_bounds: "0 \<le> uint (b :: byte)" "uint (b :: byte) < 256"
  using uint_lt2p [of b] by simp_all

lemma uint_jschar_bounds: "0 \<le> uint (c :: jschar)" "uint (c :: jschar) < 65536"
  using uint_lt2p [of c] by simp_all

lemma uint_of_int_byte: "0 \<le> k \<Longrightarrow> k < 256 \<Longrightarrow> uint (of_int k :: byte) = k"
  by (simp add: uint_word_of_int)

lemma uint_of_int_jschar: "0 \<le> k \<Longrightarrow> k < 65536 \<Longrightarrow> uint (of_int k :: jschar) = k"
  by (simp add: uint_word_of_int)

lemma uint_hexChar:
  "0 \<le> d \<Longrightarrow> d < 16 \<Longrightarrow> uint (hexChar d) = (if d < 10 then 48 + d else 87 + d)"
  by (simp add: hexChar_def uint_of_int_jschar)

lemma hexVal_hexChar: "0 \<le> d \<Longrightarrow> d < 16 \<Longrightarrow> hexVal (hexChar d) = Some d"
  by (simp add: hexVal_def uint_hexChar Let_def)

lemma digitVal_hexChar: "0 \<le> d \<Longrightarrow> d < 16 \<Longrightarrow> digitVal (hexChar d) = d"
  by (simp add: digitVal_def hexVal_hexChar)

lemma lower_hex_hexChar: "0 \<le> d \<Longrightarrow> d < 16 \<Longrightarrow> lower_hex (hexChar d)"
  by (simp add: lower_hex_def uint_hexChar)

lemma lower_hex_hexVal: "lower_hex c \<Longrightarrow> hexVal c \<noteq> None"
  by (auto simp: lower_hex_def hexVal_def Let_def)

lemma byte_nibbles:
  "0 \<le> uint (b :: byte) div 16" "uint b div 16 < 16" "0 \<le> uint b mod 16" "uint b mod 16 < 16"
proof -
  have "0 \<le> uint b" "uint b < 256" by (rule uint_byte_bounds)+
  then show "0 \<le> uint b div 16" "uint b div 16 < 16" "0 \<le> uint b mod 16" "uint b mod 16 < 16"
    by (simp_all add: pos_imp_zdiv_nonneg_iff)
qed

lemma padStart2_toString16:
  "padStart2 (toString16 b) = [hexChar (uint b div 16), hexChar (uint b mod 16)]"
  by (simp add: padStart2_def toString16_def)

lemma hex_stringify_Cons:
  "hex_stringify (b # bs) = hexChar (uint b div 16) # hexChar (uint b mod 16) # hex_stringify bs"
  by (simp add: hex_stringify_def)

lemma hex_stringify_Nil: "hex_stringify [] = []"
  by (simp add: hex_stringify_def)

lemma generate_is_hex_stringify:
  "concat (map (\<lambda>byte. padStart2 (toString16 byte)) bs) = hex_stringify bs"
  by (simp add: hex_stringify_def padStart2_toString16)

lemma length_hex_stringify: "length (hex_stringify bs) = 2 * length bs"
  by (induction bs) (simp_all add: hex_stringify_Cons hex_stringify_Nil)

lemma lower_hex_hex_stringify: "list_all lower_hex (hex_stringify bs)"
  by (induction bs)
     (simp_all add: hex_stringify_Cons hex_stringify_Nil lower_hex_hexChar byte_nibbles)

lemma hex_parse_hex_stringify: "hex_parse (hex_stringify bs) = bs"
  by (induction bs)
     (simp_all add: hex_stringify_Cons hex_stringify_Nil digitVal_hexChar byte_nibbles)

lemma is_hex_hex_stringify: "is_hex (hex_stringify bs)"
proof -
  have "list_all (\<lambda>c. hexVal c \<noteq> None) (hex_stringify bs)"
    using lower_hex_hex_stringify [of bs] by (auto simp: list_all_iff dest!: lower_hex_hexVal)
  then show ?thesis by (simp add: is_hex_def length_hex_stringify)
qed

lemma length_getRandomValues: "length (getRandomValues rnd n) = n"
  by (simp add: getRandomValues_def)

lemma generateIV_eq: "generateIV rnd = hex_stringify (getRandomValues rnd 16)"
  by (simp add: generateIV_def generate_is_hex_stringify)

lemma generateEncryptionKey_eq:
  "generateEncryptionKey rnd = hex_stringify (getRandomValues rnd 32)"
  by (simp add: generateEncryptionKey_def generate_is_hex_stringify)

lemma hex_parse_generateIV: "hex_parse (generateIV rnd) = getRandomValues rnd 16"
  by (simp add: generateIV_eq hex_parse_hex_stringify)

lemma hex_parse_generateEncryptionKey:
  "hex_parse (generateEncryptionKey rnd) = getRandomValues rnd 32"
  by (simp add: generateEncryptionKey_eq hex_parse_hex_stringify)

lemma length_hex_parse: "length (hex_parse s) = length s div 2"
  by (induction s rule: hex_parse.induct) simp_all

section \<open>Facts about UTF-8 text\<close>

lemma int_div_range:
  fixes v n lo hi :: int
  assumes "lo * n \<le> v" "v < hi * n" "0 < n"
  shows "lo \<le> v div n" "v div n < hi"
proof -
  have "(lo * n) div n \<le> v div n" using assms(1,3) by (intro zdiv_mono1) auto
  then show "lo \<le> v div n" using assms(3) by simp
  have le: "v div n * n \<le> v"
    using div_mult_mod_eq [of v n] pos_mod_sign [OF assms(3), of v] by linarith
  show "v div n < hi"
  proof (rule ccontr)
    assume "\<not> v div n < hi"
    then have "hi \<le> v div n" by simp
    then have "hi * n \<le> v div n * n" using assms(3) by (intro mult_right_mono) auto
    with le assms(2) show False by linarith
  qed
qed

lemma split3: "(v::int) div 4096 * 4096 + v div 64 mod 64 * 64 + v mod 64 = v"
proof -
  have alg: "h * 4096 + m * 64 + l = (h * 64 + m) * 64 + l" for h m l :: int
    by (simp add: algebra_simps)
  have e3: "v div 4096 = v div 64 div 64" by (simp add: zdiv_zmult2_eq [symmetric])
  have "v div 4096 * 4096 + v div 64 mod 64 * 64 + v mod 64
        = (v div 64 div 64 * 64 + v div 64 mod 64) * 64 + v mod 64"
    unfolding e3 by (rule alg)
  also have "\<dots> = v div 64 * 64 + v mod 64" by (simp only: div_mult_mod_eq)
  also have "\<dots> = v" by (simp only: div_mult_mod_eq)
  finally show ?thesis .
qed

lemma split4:
  "(v::int) div 262144 * 262144 + v div 4096 mod 64 * 4096 + v div 64 mod 64 * 64 + v mod 64 = v"
proof -
  have alg: "h * 262144 + m * 4096 + n * 64 + l = (h * 64 + m) * 4096 + n * 64 + l"
    for h m n l :: int
    by (simp add: algebra_simps)
  have e3: "v div 262144 = v div 4096 div 64" by (simp add: zdiv_zmult2_eq [symmetric])
  have "v div 262144 * 262144 + v div 4096 mod 64 * 4096 + v div 64 mod 64 * 64 + v mod 64
        = (v div 4096 div 64 * 64 + v div 4096 mod 64) * 4096 + v div 64 mod 64 * 64 + v mod 64"
    unfolding e3 by (rule alg)
  also have "\<dots> = v div 4096 * 4096 + v div 64 mod 64 * 64 + v mod 64"
    by (simp only: div_mult_mod_eq)
  also have "\<dots> = v" by (rule split3)
  finally show ?thesis .
qed

lemma decode1:
  assumes "uint b0 = v" "v < 0x80"
  shows "utf8_stringify ([b0] @ r)
         = (case utf8_stringify r of Inl e \<Rightarrow> Inl e | Inr s \<Rightarrow> Inr (of_int v # s))"
  using assms by (cases "utf8_stringify r") simp_all

lemma decode2:
  assumes "uint b0 = 0xC0 + h" "uint b1 = 0x80 + l" "2 \<le> h" "h < 32" "0 \<le> l" "l < 64"
  shows "utf8_stringify ([b0, b1] @ r)
         = (case utf8_stringify r of Inl e \<Rightarrow> Inl e | Inr s \<Rightarrow> Inr (of_int (h * 64 + l) # s))"
proof -
  have v: "value2 b0 b1 = h * 64 + l" by (simp add: value2_def assms)
  have c: "is_continuation b1" using assms by (simp add: is_continuation_def)
  have l: "\<not> uint b0 < 0x80" "0xC2 \<le> uint b0 \<and> uint b0 < 0xE0" using assms by simp_all
  show ?thesis by (cases "utf8_stringify r") (simp_all add: v c l)
qed

lemma decode3:
  assumes "uint b0 = 0xE0 + h" "uint b1 = 0x80 + m" "uint b2 = 0x80 + l"
    "0 \<le> h" "h < 16" "0 \<le> m" "m < 64" "0 \<le> l" "l < 64"
    "0x800 \<le> h * 4096 + m * 64 + l"
    "\<not> (0xD800 \<le> h * 4096 + m * 64 + l \<and> h * 4096 + m * 64 + l < 0xE000)"
  shows "utf8_stringify ([b0, b1, b2] @ r)
         = (case utf8_stringify r of Inl e \<Rightarrow> Inl e
            | Inr s \<Rightarrow> Inr (of_int (h * 4096 + m * 64 + l) # s))"
proof -
  have v: "value3 b0 b1 b2 = h * 4096 + m * 64 + l" by (simp add: value3_def assms)
  have c: "valid3 b0 b1 b2"
    unfolding valid3_def v using assms by (simp add: is_continuation_def)
  have l: "\<not> uint b0 < 0x80" "\<not> (0xC2 \<le> uint b0 \<and> uint b0 < 0xE0)"
    "0xE0 \<le> uint b0 \<and> uint b0 < 0xF0"
    using assms by simp_all
  show ?thesis by (cases "utf8_stringify r") (simp_all add: v c l)
qed

lemma decode4:
  assumes "uint b0 = 0xF0 + h" "uint b1 = 0x80 + m" "uint b2 = 0x80 + n" "uint b3 = 0x80 + l"
    "0 \<le> h" "h < 5" "0 \<le> m" "m < 64" "0 \<le> n" "n < 64" "0 \<le> l" "l < 64"
    "0x10000 \<le> h * 262144 + m * 4096 + n * 64 + l"
    "h * 262144 + m * 4096 + n * 64 + l < 0x110000"
  shows "utf8_stringify ([b0, b1, b2, b3] @ r)
         = (case utf8_stringify r of Inl e \<Rightarrow> Inl e
            | Inr s \<Rightarrow> Inr (codeunits_of_codepoint (h * 262144 + m * 4096 + n * 64 + l) @ s))"
proof -
  have v: "value4 b0 b1 b2 b3 = h * 262144 + m * 4096 + n * 64 + l"
    by (simp add: value4_def assms)
  have c: "valid4 b0 b1 b2 b3"
    unfolding valid4_def v using assms by (simp add: is_continuation_def)
  have l: "\<not> uint b0 < 0x80" "\<not> (0xC2 \<le> uint b0 \<and> uint b0 < 0xE0)"
    "\<not> (0xE0 \<le> uint b0 \<and> uint b0 < 0xF0)" "0xF0 \<le> uint b0 \<and> uint b0 < 0xF5"
    using assms by simp_all
  show ?thesis by (cases "utf8_stringify r") (simp_all add: v c l)
qed

lemma utf8_parse_well_formed: "well_formed s \<Longrightarrow> \<exists>bs. utf8_parse s = Inr bs"
proof (induction s rule: well_formed.induct)
  case 1
  show ?case by simp
next
  case (2 c cs)
  show ?case
  proof (cases "is_low_surrogate c")
    case True
    with "2.prems" show ?thesis by simp
  next
    case nl: False
    show ?thesis
    proof (cases "is_high_surrogate c")
      case True
      with nl "2.prems" obtain d ds where cs: "cs = d # ds" and d: "is_low_surrogate d"
        and wf: "well_formed ds"
        by (cases cs) auto
      from "2.IH"(1) [OF nl True cs wf] obtain bs where "utf8_parse ds = Inr bs" ..
      then show ?thesis using nl True cs d by simp
    next
      case False
      with nl "2.prems" have "well_formed cs" by simp
      from "2.IH"(2) [OF nl False this] obtain bs where "utf8_parse cs = Inr bs" ..
      then show ?thesis using nl False by simp
    qed
  qed
qed

lemma utf8_parse_ill_formed: "\<not> well_formed s \<Longrightarrow> utf8_parse s = Inl URIError"
proof (induction s rule: well_formed.induct)
  case 1
  then show ?case by simp
next
  case (2 c cs)
  show ?case
  proof (cases "is_low_surrogate c")
    case True
    then show ?thesis by simp
  next
    case nl: False
    show ?thesis
    proof (cases "is_high_surrogate c")
      case True
      show ?thesis
      proof (cases cs)
        case Nil
        then show ?thesis using nl True by simp
      next
        case (Cons d ds)
        show ?thesis
        proof (cases "is_low_surrogate d")
          case d: True
          with nl True Cons "2.prems" have "\<not> well_formed ds" by simp
          from "2.IH"(1) [OF nl True Cons this] show ?thesis using nl True Cons d by simp
        next
          case False
          then show ?thesis using nl True Cons by simp
        qed
      qed
    next
      case False
      with nl "2.prems" have "\<not> well_formed cs" by simp
      from "2.IH"(2) [OF nl False this] show ?thesis using nl False by simp
    qed
  qed
qed

lemma encode_bmp:
  assumes "0 \<le> v" "v < 0x10000" "\<not> (0xD800 \<le> v \<and> v < 0xE000)"
  shows "utf8_stringify (utf8_of_codepoint v @ r)
         = (case utf8_stringify r of Inl e \<Rightarrow> Inl e | Inr s \<Rightarrow> Inr (of_int v # s))"
proof -
  consider "v < 0x80" | "0x80 \<le> v" "v < 0x800" | "0x800 \<le> v" by linarith
  then show ?thesis
  proof cases
    case 1
    have b0: "uint (of_int v :: byte) = v" using assms 1 by (intro uint_of_int_byte) auto
    have enc: "utf8_of_codepoint v = [of_int v]" using 1 by (simp add: utf8_of_codepoint_def)
    show ?thesis unfolding enc using decode1 [OF b0 1, of r] .
  next
    case 2
    define h l where "h = v div 64" and "l = v mod 64"
    have r: "2 \<le> h" "h < 32" "0 \<le> l" "l < 64"
      using 2 int_div_range [of 2 64 v 32] unfolding h_def l_def by simp_all
    have b0: "uint (of_int (0xC0 + h) :: byte) = 0xC0 + h"
      using r by (intro uint_of_int_byte) auto
    have b1: "uint (of_int (0x80 + l) :: byte) = 0x80 + l"
      using r by (intro uint_of_int_byte) auto
    have enc: "utf8_of_codepoint v = [of_int (0xC0 + h), of_int (0x80 + l)]"
      using 2 unfolding h_def l_def utf8_of_codepoint_def by simp
    have v: "h * 64 + l = v" unfolding h_def l_def by simp
    show ?thesis unfolding enc using decode2 [OF b0 b1 r, of r] unfolding v .
  next
    case 3
    define h m l where "h = v div 4096" and "m = v div 64 mod 64" and "l = v mod 64"
    have r: "0 \<le> h" "h < 16" "0 \<le> m" "m < 64" "0 \<le> l" "l < 64"
      using assms int_div_range [of 0 4096 v 16] unfolding h_def m_def l_def by simp_all
    have b0: "uint (of_int (0xE0 + h) :: byte) = 0xE0 + h"
      using r by (intro uint_of_int_byte) auto
    have b1: "uint (of_int (0x80 + m) :: byte) = 0x80 + m"
      using r by (intro uint_of_int_byte) auto
    have b2: "uint (of_int (0x80 + l) :: byte) = 0x80 + l"
      using r by (intro uint_of_int_byte) auto
    have enc: "utf8_of_codepoint v = [of_int (0xE0 + h), of_int (0x80 + m), of_int (0x80 + l)]"
      using 3 assms unfolding h_def m_def l_def utf8_of_codepoint_def by simp
    have v: "h * 4096 + m * 64 + l = v" unfolding h_def m_def l_def by (rule split3)
    have c: "0x800 \<le> h * 4096 + m * 64 + l"
      "\<not> (0xD800 \<le> h * 4096 + m * 64 + l \<and> h * 4096 + m * 64 + l < 0xE000)"
      unfolding v using 3 assms by auto
    show ?thesis unfolding enc using decode3 [OF b0 b1 b2 r c, of r] unfolding v .
  qed
qed

lemma encode_astral:
  assumes "0x10000 \<le> v" "v < 0x110000"
  shows "utf8_stringify (utf8_of_codepoint v @ r)
         = (case utf8_stringify r of Inl e \<Rightarrow> Inl e
            | Inr s \<Rightarrow> Inr (codeunits_of_codepoint v @ s))"
proof -
  define h m n l where "h = v div 262144" and "m = v div 4096 mod 64"
    and "n = v div 64 mod 64" and "l = v mod 64"
  have r: "0 \<le> h" "h < 5" "0 \<le> m" "m < 64" "0 \<le> n" "n < 64" "0 \<le> l" "l < 64"
    using assms int_div_range [of 0 262144 v 5] unfolding h_def m_def n_def l_def by simp_all
  have b0: "uint (of_int (0xF0 + h) :: byte) = 0xF0 + h"
    using r by (intro uint_of_int_byte) auto
  have b1: "uint (of_int (0x80 + m) :: byte) = 0x80 + m"
    using r by (intro uint_of_int_byte) auto
  have b2: "uint (of_int (0x80 + n) :: byte) = 0x80 + n"
    using r by (intro uint_of_int_byte) auto
  have b3: "uint (of_int (0x80 + l) :: byte) = 0x80 + l"
    using r by (intro uint_of_int_byte) auto
  have enc: "utf8_of_codepoint v
             = [of_int (0xF0 + h), of_int (0x80 + m), of_int (0x80 + n), of_int (0x80 + l)]"
    using assms unfolding h_def m_def n_def l_def utf8_of_codepoint_def by simp
  have v: "h * 262144 + m * 4096 + n * 64 + l = v"
    unfolding h_def m_def n_def l_def by (rule split4)
  have c: "0x10000 \<le> h * 262144 + m * 4096 + n * 64 + l"
    "h * 262144 + m * 4096 + n * 64 + l < 0x110000"
    unfolding v using assms by auto
  show ?thesis unfolding enc using decode4 [OF b0 b1 b2 b3 r c, of r] unfolding v .
qed

lemma codeunits_of_pair:
  assumes "is_high_surrogate c" "is_low_surrogate d"
  shows "codeunits_of_codepoint (pair_codepoint c d) = [c, d]"
    and "0x10000 \<le> pair_codepoint c d" and "pair_codepoint c d < 0x110000"
proof -
  define h l where "h = uint c - 0xD800" and "l = uint d - 0xDC00"
  have h: "0 \<le> h" "h < 1024" and l: "0 \<le> l" "l < 1024"
    using assms by (auto simp: is_high_surrogate_def is_low_surrogate_def h_def l_def)
  have p: "pair_codepoint c d = h * 1024 + l + 0x10000"
    by (simp add: pair_codepoint_def h_def l_def)
  have dv: "(h * 1024 + l) div 1024 = h" and md: "(h * 1024 + l) mod 1024 = l"
    using l by simp_all
  have c: "of_int (0xD800 + h) = c" and d: "of_int (0xDC00 + l) = d"
    by (simp_all add: h_def l_def)
  show "0x10000 \<le> pair_codepoint c d" using h l by (simp add: p)
  show "pair_codepoint c d < 0x110000" using h l by (simp add: p)
  have "\<not> pair_codepoint c d < 0x10000" using h l by (simp add: p)
  then have "codeunits_of_codepoint (pair_codepoint c d)
             = [of_int (0xD800 + (h * 1024 + l) div 1024), of_int (0xDC00 + (h * 1024 + l) mod 1024)]"
    by (simp add: codeunits_of_codepoint_def p)
  then show "codeunits_of_codepoint (pair_codepoint c d) = [c, d]"
    unfolding dv md c d .
qed

lemma utf8_roundtrip: "utf8_parse s = Inr bs \<Longrightarrow> utf8_stringify bs = Inr s"
proof (induction s arbitrary: bs rule: utf8_parse.induct)
  case 1
  then show ?case by simp
next
  case (2 c cs)
  show ?case
  proof (cases "is_high_surrogate c")
    case True
    then have nl: "\<not> is_low_surrogate c"
      by (auto simp: is_high_surrogate_def is_low_surrogate_def)
    from "2.prems" True nl obtain d ds bs' where
      cs: "cs = d # ds" and d: "is_low_surrogate d" and
      ds: "utf8_parse ds = Inr bs'" and bs: "bs = utf8_of_codepoint (pair_codepoint c d) @ bs'"
      by (auto split: list.splits if_splits sum.splits)
    have "utf8_stringify bs' = Inr ds"
      using "2.IH"(1) [OF nl True cs d ds] .
    then show ?thesis
      using codeunits_of_pair [OF True d] by (simp add: bs cs encode_astral)
  next
    case False
    from "2.prems" False obtain bs' where nl: "\<not> is_low_surrogate c" and
      cs: "utf8_parse cs = Inr bs'" and bs: "bs = utf8_of_codepoint (uint c) @ bs'"
      by (auto split: if_splits sum.splits)
    have ih: "utf8_stringify bs' = Inr cs"
      using "2.IH"(2) [OF nl False cs] .
    have ns: "\<not> (0xD800 \<le> uint c \<and> uint c < 0xE000)"
      using False nl by (auto simp: is_high_surrogate_def is_low_surrogate_def)
    show ?thesis
      using encode_bmp [OF uint_jschar_bounds ns, of bs'] by (simp add: bs ih)
  qed
qed

section \<open>Facts about the file list\<close>

lemma foldl_size_acc: "foldl (\<lambda>sum f. sum + f_size f) a fs = a + sum_list (map f_size fs)"
  by (induction fs arbitrary: a) simp_all

lemma total_size_sum: "total_size fs = sum_list (map f_size fs)"
  by (simp add: total_size_def foldl_size_acc)

lemma total_size_append: "total_size (fs @ gs) = total_size fs + total_size gs"
  by (simp add: total_size_sum)

lemma admitted_append:
  "admitted (fs @ gs)
   = (length fs + length gs \<le> 5 \<and> total_size fs + total_size gs \<le> 10485760)"
  by (simp add: admitted_def total_size_append)

lemma handleFileSelect_accepts:
  "admitted (files st @ sel) \<Longrightarrow> handleFileSelect st sel = (st\<lparr>files := files st @ sel\<rparr>, None)"
  by (simp add: handleFileSelect_def admitted_append MAX_FILES_def MAX_FILE_SIZE_def Let_def)

lemma handleFileSelect_rejects:
  "\<not> admitted (files st @ sel) \<Longrightarrow>
   fst (handleFileSelect st sel) = st \<and> snd (handleFileSelect st sel) \<noteq> None"
  by (auto simp: handleFileSelect_def admitted_append MAX_FILES_def MAX_FILE_SIZE_def Let_def)

lemma handleFileSelect_keeps:
  "admitted (files st) \<Longrightarrow> admitted (files (fst (handleFileSelect st sel)))"
  by (cases "admitted (files st @ sel)")
     (simp_all add: handleFileSelect_accepts handleFileSelect_rejects)

lemma filtered_pairs_smaller:
  "length (map snd (filter P zs)) \<le> length zs
   \<and> total_size (map snd (filter P zs)) \<le> total_size (map snd zs)"
proof -
  have "sum_list (map (f_size \<circ> snd) (filter P zs)) \<le> sum_list (map (f_size \<circ> snd) zs)"
    by (rule sum_list_filter_le_nat)
  then show ?thesis by (simp add: total_size_sum)
qed

lemma removeFile_keeps: "admitted (files st) \<Longrightarrow> admitted (files (removeFile st index))"
proof -
  assume a: "admitted (files st)"
  let ?zs = "zip [0..<length (files st)] (files st)"
  have z: "map snd ?zs = files st" "length ?zs = length (files st)" by simp_all
  from filtered_pairs_smaller [of "\<lambda>(i, f). i \<noteq> index" ?zs]
  show ?thesis using a unfolding z by (simp add: admitted_def removeFile_def)
qed

lemma file_step_keeps: "admitted (files st) \<Longrightarrow> admitted (files (file_step st ev))"
  by (cases ev) (simp_all add: handleFileSelect_keeps removeFile_keeps)

lemma file_steps_keep: "admitted (files st) \<Longrightarrow> admitted (files (foldl file_step st evs))"
  by (induction evs arbitrary: st) (simp_all add: file_step_keeps)

lemma admitted_initial: "admitted (files initial_state)"
  by (simp add: initial_state_def admitted_def total_size_def)

section \<open>Facts about the state machine\<close>


lemma view_other:
  "j \<noteq> ident \<Longrightarrow> snd (view how s j now supplied) ident = s ident"
  by (auto simp: view_def consume_def split: option.splits consumption.splits)












section \<open>Facts about Base64 text\<close>

lemma uint_b64char:
  assumes "0 \<le> d" "d < 64"
  shows "uint (b64char d) = (if d < 26 then 65 + d else if d < 52 then 71 + d
             else if d < 62 then d - 4 else if d = 62 then 43 else 47)"
  using assms unfolding b64char_def by (intro uint_of_int_jschar) auto

lemma reverseMap_b64char: "0 \<le> d \<Longrightarrow> d < 64 \<Longrightarrow> reverseMap (b64char d) = Some d"
  by (simp add: reverseMap_def uint_b64char Let_def)

lemma sextet_b64char: "0 \<le> d \<Longrightarrow> d < 64 \<Longrightarrow> sextet (b64char d) = d"
  by (simp add: sextet_def reverseMap_b64char)

lemma in_alphabet_b64char: "0 \<le> d \<Longrightarrow> d < 64 \<Longrightarrow> in_alphabet (b64char d)"
  by (simp add: in_alphabet_def reverseMap_b64char)

lemma in_alphabet_not_pad: "in_alphabet c \<Longrightarrow> c \<noteq> padChar"
  by (auto simp: in_alphabet_def reverseMap_def padChar_def Let_def split: if_splits)

lemma in_alphabet_ascii: "in_alphabet c \<Longrightarrow> uint c < 0x80 \<and> \<not> ascii_whitespace c"
  by (auto simp: in_alphabet_def reverseMap_def ascii_whitespace_def Let_def split: if_splits)

lemma sextets:
  fixes a b c :: byte
  shows "0 \<le> uint a div 4 \<and> uint a div 4 < 64"
    and "0 \<le> uint a mod 4 * 16 + uint b div 16 \<and> uint a mod 4 * 16 + uint b div 16 < 64"
    and "0 \<le> uint b mod 16 * 4 + uint c div 64 \<and> uint b mod 16 * 4 + uint c div 64 < 64"
    and "0 \<le> uint c mod 64 \<and> uint c mod 64 < 64"
    and "0 \<le> uint a mod 4 * 16 \<and> uint a mod 4 * 16 < 64"
    and "0 \<le> uint b mod 16 * 4 \<and> uint b mod 16 * 4 < 64"
proof -
  have a: "0 \<le> uint a div 4" "uint a div 4 < 64" "0 \<le> uint a mod 4" "uint a mod 4 < 4"
    using uint_byte_bounds [of a] int_div_range [of 0 4 "uint a" 64] by simp_all
  have b: "0 \<le> uint b div 16" "uint b div 16 < 16" "0 \<le> uint b mod 16" "uint b mod 16 < 16"
    using uint_byte_bounds [of b] int_div_range [of 0 16 "uint b" 16] by simp_all
  have c: "0 \<le> uint c div 64" "uint c div 64 < 4" "0 \<le> uint c mod 64" "uint c mod 64 < 64"
    using uint_byte_bounds [of c] int_div_range [of 0 64 "uint c" 4] by simp_all
  show "0 \<le> uint a div 4 \<and> uint a div 4 < 64" using a by simp
  show "0 \<le> uint a mod 4 * 16 + uint b div 16 \<and> uint a mod 4 * 16 + uint b div 16 < 64"
    using a b by linarith
  show "0 \<le> uint b mod 16 * 4 + uint c div 64 \<and> uint b mod 16 * 4 + uint c div 64 < 64"
    using b c by linarith
  show "0 \<le> uint c mod 64 \<and> uint c mod 64 < 64" using c by simp
  show "0 \<le> uint a mod 4 * 16 \<and> uint a mod 4 * 16 < 64" using a by linarith
  show "0 \<le> uint b mod 16 * 4 \<and> uint b mod 16 * 4 < 64" using b by linarith
qed


lemma div_mod_digit:
  fixes x y n :: int
  assumes "0 \<le> y" "y < n"
  shows "(x * n + y) div n = x" "(x * n + y) mod n = y"
  using assms by simp_all

lemma byte_drop_high: "(of_int (m * 256 + k) :: byte) = of_int k"
  unfolding word_of_int_eq_iff by (simp add: take_bit_eq_mod)

lemma join1_enc:
  fixes a b :: byte
  shows "join1 (b64char (uint a div 4)) (b64char (uint a mod 4 * 16 + uint b div 16)) = a"
proof -
  have d: "(uint a mod 4 * 16 + uint b div 16) div 16 = uint a mod 4"
    using uint_byte_bounds [of b] int_div_range [of 0 16 "uint b" 16]
    by (intro div_mod_digit) simp_all
  have "uint a div 4 * 4 + uint a mod 4 = uint a" by simp
  then show ?thesis
    unfolding join1_def using sextets(1) [of a] sextets(2) [of a b] by (simp only: sextet_b64char d of_int_uint ucast_id)
qed

lemma join2_enc:
  fixes a b c :: byte
  shows "join2 (b64char (uint a mod 4 * 16 + uint b div 16))
         (b64char (uint b mod 16 * 4 + uint c div 64)) = b"
proof -
  have d: "(uint b mod 16 * 4 + uint c div 64) div 4 = uint b mod 16"
    using uint_byte_bounds [of c] int_div_range [of 0 64 "uint c" 4]
    by (intro div_mod_digit) simp_all
  have alg: "(m * 16 + h) * 16 + l = m * 256 + (h * 16 + l)" for m h l :: int
    by (simp add: algebra_simps)
  have "(uint a mod 4 * 16 + uint b div 16) * 16 + uint b mod 16
        = uint a mod 4 * 256 + (uint b div 16 * 16 + uint b mod 16)"
    by (rule alg)
  also have "\<dots> = uint a mod 4 * 256 + uint b" by (simp only: div_mult_mod_eq)
  finally have v: "(uint a mod 4 * 16 + uint b div 16) * 16 + uint b mod 16
        = uint a mod 4 * 256 + uint b" .
  show ?thesis
    unfolding join2_def using sextets(2) [of a b] sextets(3) [of b c]
    by (simp only: sextet_b64char d v byte_drop_high of_int_uint ucast_id)
qed

lemma join3_enc:
  fixes b c :: byte
  shows "join3 (b64char (uint b mod 16 * 4 + uint c div 64)) (b64char (uint c mod 64)) = c"
proof -
  have alg: "(m * 4 + h) * 64 + l = m * 256 + (h * 64 + l)" for m h l :: int
    by (simp add: algebra_simps)
  have "(uint b mod 16 * 4 + uint c div 64) * 64 + uint c mod 64
        = uint b mod 16 * 256 + (uint c div 64 * 64 + uint c mod 64)"
    by (rule alg)
  also have "\<dots> = uint b mod 16 * 256 + uint c" by (simp only: div_mult_mod_eq)
  finally have v: "(uint b mod 16 * 4 + uint c div 64) * 64 + uint c mod 64
        = uint b mod 16 * 256 + uint c" .
  show ?thesis
    unfolding join3_def using sextets(3) [of b c] sextets(4) [of c]
    by (simp only: sextet_b64char v byte_drop_high of_int_uint ucast_id)
qed

lemma join1_last:
  fixes a :: byte
  shows "join1 (b64char (uint a div 4)) (b64char (uint a mod 4 * 16)) = a"
  using join1_enc [of a 0] by simp

lemma join2_last:
  fixes a b :: byte
  shows "join2 (b64char (uint a mod 4 * 16 + uint b div 16)) (b64char (uint b mod 16 * 4)) = b"
  using join2_enc [of a b 0] by simp

lemma parseLoop_body: "parseLoop (base64_body bs) = bs"
  by (induction bs rule: base64_body.induct)
     (simp_all add: join1_enc join2_enc join3_enc join1_last join2_last)

lemma in_alphabet_body: "list_all in_alphabet (base64_body bs)"
  by (induction bs rule: base64_body.induct)
     (simp_all add: in_alphabet_b64char sextets)

lemma length_body_mod: "length (base64_body bs) mod 4 \<noteq> 1"
  by (induction bs rule: base64_body.induct) simp_all

lemma encode_is_body:
  "base64_encode bs = base64_body bs @ replicate ((3 - length bs mod 3) mod 3) padChar"
  by (induction bs rule: base64_body.induct) (simp_all add: numeral_2_eq_2)

lemma length_encode_mod: "length (base64_encode bs) mod 4 = 0"
  by (induction bs rule: base64_encode.induct) simp_all

lemma takeWhile_body:
  "takeWhile (\<lambda>c. c \<noteq> padChar) (base64_body bs @ replicate k padChar) = base64_body bs"
proof -
  have "\<forall>c\<in>set (base64_body bs). c \<noteq> padChar"
    using in_alphabet_body [of bs] in_alphabet_not_pad by (auto simp: list_all_iff)
  then show ?thesis by (cases k) (simp_all add: takeWhile_append2)
qed

lemma base64_parse_encode: "base64_parse (base64_encode bs) = bs"
  by (simp add: base64_parse_def encode_is_body takeWhile_body parseLoop_body)

lemma strip_padding_body:
  assumes "k \<le> 2" "length (base64_body bs @ replicate k padChar) mod 4 = 0"
  shows "strip_padding (base64_body bs @ replicate k padChar) = base64_body bs"
proof -
  let ?b = "base64_body bs"
  have np: "?b \<noteq> [] \<Longrightarrow> last ?b \<noteq> padChar"
    using in_alphabet_body [of bs] in_alphabet_not_pad [of "last ?b"] last_in_set [of ?b]
    by (auto simp: list_all_iff)
  consider "k = 0" | "k = 1" | "k = 2" using assms(1) by linarith
  then show ?thesis
  proof cases
    case 1
    then show ?thesis using np by (auto simp: strip_padding_def)
  next
    case 2
    have "?b \<noteq> []" using assms(2) 2 by auto
    then show ?thesis using np 2 assms(2) by (simp add: strip_padding_def)
  next
    case 3
    then have r: "replicate k padChar = [padChar, padChar]" by (simp add: numeral_2_eq_2)
    have "butlast (?b @ [padChar, padChar]) = ?b @ [padChar]"
      by (simp add: butlast_append)
    then show ?thesis using assms(2) unfolding r by (simp add: strip_padding_def)
  qed
qed

lemma no_whitespace_encode:
  "filter (\<lambda>c. \<not> ascii_whitespace c) (base64_encode bs) = base64_encode bs"
proof -
  have "\<forall>c\<in>set (base64_body bs). \<not> ascii_whitespace c"
    using in_alphabet_body [of bs] in_alphabet_ascii by (auto simp: list_all_iff)
  moreover have "\<not> ascii_whitespace padChar" by (simp add: ascii_whitespace_def padChar_def)
  ultimately show ?thesis by (simp add: encode_is_body filter_id_conv)
qed

lemma atob_encode: "atob (base64_encode bs) = Inr (map ucast bs)"
proof -
  let ?k = "(3 - length bs mod 3) mod 3"
  have k: "?k \<le> 2" by simp
  have l: "length (base64_body bs @ replicate ?k padChar) mod 4 = 0"
    using length_encode_mod [of bs] by (simp only: encode_is_body)
  have s: "strip_padding (base64_encode bs) = base64_body bs"
    unfolding encode_is_body by (rule strip_padding_body [OF k l])
  show ?thesis
    using length_body_mod [of bs]
    by (simp add: atob_def no_whitespace_encode s Let_def in_alphabet_body parseLoop_body)
qed

lemma ucast_byte_roundtrip: "(ucast (ucast (b :: byte) :: jschar) :: byte) = b"
  by (rule ucast_up_ucast_id) (simp add: is_up)

lemma base64ToArrayBuffer_encode: "base64ToArrayBuffer (base64_encode bs) = Inr bs"
  by (simp add: base64ToArrayBuffer_def atob_encode comp_def ucast_byte_roundtrip)

lemma uint_ucast_byte: "uint (ucast (b :: byte) :: jschar) < 256"
  using uint_byte_bounds(2) [of b] by (simp add: uint_up_ucast is_up)

lemma arrayBufferToBase64_eq: "arrayBufferToBase64 bs = Inr (base64_encode bs)"
  by (simp add: arrayBufferToBase64_def btoa_def list_all_iff uint_ucast_byte comp_def
      ucast_byte_roundtrip)

lemma ascii_well_formed: "list_all (\<lambda>c. uint c < 0x80) s \<Longrightarrow> well_formed s"
  by (induction s) (simp_all add: is_low_surrogate_def is_high_surrogate_def)

lemma well_formed_encode: "well_formed (base64_encode bs)"
proof -
  have "uint padChar < 0x80" by (simp add: padChar_def)
  moreover have "\<forall>c\<in>set (base64_body bs). uint c < 0x80"
    using in_alphabet_body [of bs] in_alphabet_ascii by (auto simp: list_all_iff)
  ultimately show ?thesis by (intro ascii_well_formed) (auto simp: encode_is_body list_all_iff)
qed

section \<open>Facts about padding and chaining\<close>

lemma length_block16: "length (block16 bs) = 16"
  by (simp add: block16_def)

lemma block16_id: "length bs = 16 \<Longrightarrow> block16 bs = bs"
  by (simp add: block16_def)

lemma map2_xor_cancel:
  fixes xs ys :: "byte list"
  shows "length xs = length ys \<Longrightarrow> map2 (XOR) (map2 (XOR) xs ys) ys = xs"
  by (induction xs ys rule: list_induct2) (simp_all add: xor.assoc)

lemma length_xorBlock: "length (xorBlock b p) = 16"
  by (simp add: xorBlock_def length_block16)

lemma xorBlock_cancel: "length b = 16 \<Longrightarrow> xorBlock (xorBlock b p) p = b"
proof -
  assume b: "length b = 16"
  have l: "length (map2 (XOR) b (block16 p)) = 16" by (simp add: b length_block16)
  show ?thesis
    unfolding xorBlock_def block16_id [OF b] block16_id [OF l]
    by (rule map2_xor_cancel) (simp add: b length_block16)
qed

lemma blocks_append:
  "length c = 16 \<Longrightarrow> blocks (c @ rest) = c # blocks rest"
proof -
  assume c: "length c = 16"
  then obtain x xs where cx: "c = x # xs" by (cases c) auto
  with c have xs: "length xs = 15" by simp
  show ?thesis
    unfolding cx using xs c cx by (simp add: block16_id)
qed

lemma blocks_concat: "\<forall>b\<in>set cs. length b = 16 \<Longrightarrow> blocks (concat cs) = cs"
  by (induction cs) (simp_all add: blocks_append)

lemma blocks_exact:
  "length xs = 16 * n \<Longrightarrow> concat (blocks xs) = xs \<and> (\<forall>b\<in>set (blocks xs). length b = 16)"
proof (induction n arbitrary: xs)
  case 0
  then show ?case by simp
next
  case (Suc n)
  let ?c = "take 16 xs" and ?r = "drop 16 xs"
  have c: "length ?c = 16" and r: "length ?r = 16 * n" using Suc.prems by simp_all
  have "blocks xs = ?c # blocks ?r"
    using blocks_append [OF c, of ?r] by simp
  with Suc.IH [OF r] c show ?case by simp
qed

lemma cbc_roundtrip:
  assumes inv: "\<forall>b. length b = 16 \<longrightarrow> length (E b) = 16 \<and> D (E b) = b"
  shows "\<forall>b\<in>set bs. length b = 16 \<Longrightarrow>
         cbc_decrypt D prev (cbc_encrypt E prev bs) = bs
         \<and> (\<forall>c\<in>set (cbc_encrypt E prev bs). length c = 16)"
proof (induction bs arbitrary: prev)
  case Nil
  show ?case by simp
next
  case (Cons b bs)
  let ?x = "xorBlock b prev"
  have b: "length b = 16" and bs: "\<forall>b\<in>set bs. length b = 16" using Cons.prems by simp_all
  have x: "length ?x = 16" by (rule length_xorBlock)
  have e: "length (E ?x) = 16" "D (E ?x) = ?x" using inv x by simp_all
  have c: "block16 (E ?x) = E ?x" by (rule block16_id [OF e(1)])
  have d: "xorBlock (block16 (D (E ?x))) prev = b"
    unfolding e(2) block16_id [OF x] by (rule xorBlock_cancel [OF b])
  show ?case using Cons.IH [OF bs, of "E ?x"] c d e(1) by (simp add: Let_def)
qed

lemma pad_count: "0 < 16 - length data mod 16" "16 - length (data :: byte list) mod 16 \<le> 16"
  by simp_all

lemma length_pkcs7_pad: "\<exists>n. length (pkcs7_pad data) = 16 * Suc n"
proof -
  let ?l = "length data"
  have "?l + (16 - ?l mod 16) = 16 * Suc (?l div 16)"
    by presburger
  then show ?thesis by (auto simp: pkcs7_pad_def Let_def)
qed

lemma pkcs7_roundtrip: "pkcs7_unpad (pkcs7_pad data) (length (pkcs7_pad data)) = data"
proof -
  define n where "n = 16 - length data mod 16"
  define p where "p = pkcs7_pad data"
  have p: "p = data @ replicate n (of_nat n)" by (simp add: p_def n_def pkcs7_pad_def Let_def)
  obtain m where len: "length p = 16 * Suc m" using length_pkcs7_pad p_def by blast
  have k: "4 * ((length p - 1) div 4) + 3 = length p - 1" unfolding len by presburger
  have n: "0 < n" "n \<le> 16" by (simp_all add: n_def)
  have lp: "length p = length data + n" by (simp add: p)
  have idx: "length p - 1 = length data + (n - 1)" using n lp by simp
  have "(data @ replicate n (of_nat n :: byte)) ! (length data + (n - 1))
        = replicate n (of_nat n) ! (n - 1)"
    by (rule nth_append_length_plus)
  also have "\<dots> = of_nat n" using n by (intro nth_replicate) simp
  finally have "(data @ replicate n (of_nat n :: byte)) ! (length data + (n - 1)) = of_nat n" .
  then have last: "p ! (length p - 1) = of_nat n" unfolding idx by (simp only: p)
  have u: "unat (of_nat n :: byte) = n" using n by (simp add: unat_of_nat)
  have t: "take (length p - n) p = data" unfolding lp by (simp add: p)
  have "pkcs7_unpad p (length p) = data"
    unfolding pkcs7_unpad_def Let_def k last u using len t by simp
  then show ?thesis unfolding p_def .
qed

section \<open>Encrypting and decrypting again\<close>

lemma length_cbc_encrypt: "length (cbc_encrypt E prev bs) = length bs"
  by (induction bs arbitrary: prev) (simp_all add: Let_def)

lemma length_concat_blocks: "\<forall>b\<in>set xs. length b = 16 \<Longrightarrow> length (concat xs) = 16 * length xs"
  by (induction xs) simp_all

lemma AES_roundtrip:
  assumes inv: "block_inverse aes key" and msg: "utf8_parse msg = Inr data"
  shows "\<exists>ct. AES_encrypt aes msg key ivb = Inr ct \<and> AES_decrypt aes ct key ivb = data"
proof -
  define padded where "padded = pkcs7_pad data"
  define bs where "bs = blocks padded"
  define cs where "cs = cbc_encrypt (encryptBlock aes key) (block16 ivb) bs"
  obtain n where len: "length padded = 16 * Suc n"
    using length_pkcs7_pad [of data] padded_def by blast
  have bs: "concat bs = padded" "\<forall>b\<in>set bs. length b = 16"
    using blocks_exact [OF len] by (simp_all add: bs_def)
  have inv': "\<forall>b. length b = 16 \<longrightarrow>
      length (encryptBlock aes key b) = 16 \<and> decryptBlock aes key (encryptBlock aes key b) = b"
    using inv by (simp add: block_inverse_def)
  have rt: "cbc_decrypt (decryptBlock aes key) (block16 ivb) cs = bs"
    and cs: "\<forall>c\<in>set cs. length c = 16"
    using cbc_roundtrip [OF inv' bs(2), of "block16 ivb"] by (simp_all add: cs_def)
  have lcs: "length (concat cs) = length padded"
    using length_concat_blocks [OF cs] length_concat_blocks [OF bs(2)] bs(1)
    by (simp add: cs_def length_cbc_encrypt)
  have enc: "AES_encrypt aes msg key ivb = Inr (concat cs)"
    by (simp add: AES_encrypt_def msg cs_def bs_def padded_def)
  have "AES_decrypt aes (concat cs) key ivb = pkcs7_unpad padded (length padded)"
    unfolding AES_decrypt_def blocks_concat [OF cs] rt bs(1) lcs ..
  also have "\<dots> = data" unfolding padded_def by (rule pkcs7_roundtrip)
  finally show ?thesis using enc by blast
qed

lemma text_roundtrip:
  assumes inv: "block_inverse aes (hex_parse K)" and wf: "well_formed P"
  shows "\<exists>r. encryptText aes rnd P K = Inr r \<and> iv r = generateIV rnd
             \<and> decryptText aes (ciphertext r) K (iv r) = Some P"
proof -
  from utf8_parse_well_formed [OF wf] obtain data where data: "utf8_parse P = Inr data" ..
  from AES_roundtrip [OF inv data, of "hex_parse (generateIV rnd)"] obtain ct where
    enc: "AES_encrypt aes P (hex_parse K) (hex_parse (generateIV rnd)) = Inr ct" and
    dec: "AES_decrypt aes ct (hex_parse K) (hex_parse (generateIV rnd)) = data"
    by blast
  let ?r = "\<lparr>ciphertext = base64_encode ct, iv = generateIV rnd\<rparr>"
  have e: "encryptText aes rnd P K = Inr ?r" by (simp add: encryptText_def Let_def enc)
  have "decryptText_body aes (ciphertext ?r) K (iv ?r) = Inr P"
    by (simp add: decryptText_body_def Let_def base64_parse_encode dec
        utf8_roundtrip [OF data])
  then have "decryptText aes (ciphertext ?r) K (iv ?r) = Some P" by (simp add: decryptText_def)
  with e show ?thesis by (intro exI [of _ ?r]) simp
qed

lemma file_roundtrip:
  assumes inv: "block_inverse aes (hex_parse K)"
  shows "\<exists>r ct. encryptFile aes rnd file K = Inr r \<and> ef_iv r = generateIV rnd
             \<and> ef_filename r = f_name file \<and> ef_fileSize r = f_size file
             \<and> AES_encrypt aes (base64_encode (f_content file)) (hex_parse K)
                   (hex_parse (ef_iv r)) = Inr ct
             \<and> ef_encryptedData r = base64_encode ct
             \<and> decryptFile aes (ef_encryptedData r) K (ef_iv r) = Some (f_content file)"
proof -
  let ?b64 = "base64_encode (f_content file)"
  from utf8_parse_well_formed [OF well_formed_encode] obtain data where
    data: "utf8_parse ?b64 = Inr data" ..
  from AES_roundtrip [OF inv data, of "hex_parse (generateIV rnd)"] obtain ct where
    enc: "AES_encrypt aes ?b64 (hex_parse K) (hex_parse (generateIV rnd)) = Inr ct" and
    dec: "AES_decrypt aes ct (hex_parse K) (hex_parse (generateIV rnd)) = data"
    by blast
  let ?r = "\<lparr>ef_encryptedData = base64_encode ct, ef_iv = generateIV rnd,
             ef_filename = f_name file,
             ef_fileType = (if f_type file = [] then lit ''application/octet-stream''
                            else f_type file),
             ef_fileSize = f_size file\<rparr>"
  have e: "encryptFile aes rnd file K = Inr ?r"
    by (simp add: encryptFile_def arrayBufferToBase64_eq Let_def enc)
  have "decryptFile_body aes (ef_encryptedData ?r) K (ef_iv ?r) = Inr (f_content file)"
    by (simp add: decryptFile_body_def Let_def base64_parse_encode dec
        utf8_roundtrip [OF data] base64ToArrayBuffer_encode)
  then have "decryptFile aes (ef_encryptedData ?r) K (ef_iv ?r) = Some (f_content file)"
    by (simp add: decryptFile_def)
  with e enc show ?thesis by (intro exI [of _ ?r] exI [of _ ct]) simp
qed

lemma xor_cipher_inverse: "block_inverse xor_cipher key"
proof -
  have "map2 (XOR) (map2 (XOR) b (block16 key)) (block16 key) = b" if "length b = 16" for b
    using that by (intro map2_xor_cancel) (simp add: length_block16)
  then show ?thesis by (simp add: block_inverse_def xor_cipher_def length_block16)
qed

lemma zero_cipher_inverse: "block_inverse zero_cipher key"
  by (simp add: block_inverse_def zero_cipher_def)

section \<open>Facts about \<^verbatim>\<open>handleCreate\<close>\<close>

lemma request_of_sent:
  "request_of (case x of Inl e \<Rightarrow> RequestFailed p e | Inr i \<Rightarrow> Shared p (g i)) = Some p"
  by (cases x) simp_all

lemma request_of_handleCreate:
  "request_of (handleCreate aes rnd srv st) = create_request aes rnd st"
  unfolding handleCreate_def create_request_def pin_digest_def [symmetric]
    secret_or_space_def [symmetric] Let_def
  by (simp add: request_of_sent split: sum.splits)

lemma collect_all:
  "\<forall>x\<in>set xs. \<exists>y. f x = Inr y \<Longrightarrow> \<exists>ys. collect (map f xs) = Inr ys"
proof (induction xs)
  case Nil
  show ?case by simp
next
  case (Cons x xs)
  then obtain y ys where "f x = Inr y" "collect (map f xs) = Inr ys" by auto
  then show ?case by simp
qed

lemma encrypt_one_ok:
  "block_inverse aes (hex_parse key) \<Longrightarrow> \<exists>p. encrypt_one aes rnd key f = Inr p"
  using file_roundtrip [of aes key rnd f] by (auto simp: encrypt_one_def)

lemma encrypt_files_ok:
  assumes "block_inverse aes (hex_parse key)"
  shows "\<exists>ps. encrypt_files aes rnds key fs = Inr ps"
proof -
  have "\<forall>x\<in>set (zip [0..<length fs] fs).
          \<exists>p. (\<lambda>(i, f). encrypt_one aes (rnds i) key f) x = Inr p"
    using encrypt_one_ok [OF assms] by auto
  from collect_all [OF this] show ?thesis by (auto simp: encrypt_files_def)
qed

lemma pin_digest_ok:
  "usePin st \<longrightarrow> well_formed (pin st) \<Longrightarrow> \<exists>d. pin_digest st = Inr d"
  using utf8_parse_well_formed [of "pin st"] by (auto simp: pin_digest_def hashPin_def)

lemma secret_or_space_nonempty: "secret_or_space st \<noteq> []"
  by (simp add: secret_or_space_def lit_def)

lemma generated_key_inverse: "aes256 aes \<Longrightarrow> block_inverse aes (hex_parse (generateEncryptionKey r))"
  by (simp add: aes256_def hex_parse_generateEncryptionKey length_getRandomValues)

lemma encryptText_well_formed: "encryptText aes rnd P K = Inr r \<Longrightarrow> well_formed P"
  using utf8_parse_ill_formed [of P]
  by (cases "well_formed P") (simp_all add: encryptText_def AES_encrypt_def Let_def)

lemma create_request_decrypts:
  assumes "aes256 aes" "create_request aes rnd st = Some p"
  shows "decryptText aes (sp_encryptedData p) (generateEncryptionKey (key_rnd rnd)) (sp_iv p)
         = Some (secret_or_space st)"
proof -
  let ?k = "generateEncryptionKey (key_rnd rnd)"
  from assms(2) obtain enc where
    enc: "encryptText aes (text_rnd rnd) (secret_or_space st) ?k = Inr enc" and
    p: "sp_encryptedData p = ciphertext enc" "sp_iv p = iv enc"
    by (auto simp: create_request_def split: if_splits sum.splits)
  have inv: "block_inverse aes (hex_parse ?k)" by (rule generated_key_inverse [OF assms(1)])
  from text_roundtrip [OF inv encryptText_well_formed [OF enc], of "text_rnd rnd"] enc
  show ?thesis by (auto simp: p)
qed

lemma create_request_sent:
  assumes "aes256 aes" "\<not> (trim_is_empty (secretText st) \<and> files st = [])"
    "usePin st \<longrightarrow> 4 \<le> length (pin st) \<and> well_formed (pin st)"
    "well_formed (secret_or_space st)"
  shows "\<exists>p. create_request aes rnd st = Some p"
proof -
  let ?k = "generateEncryptionKey (key_rnd rnd)"
  note inv = generated_key_inverse [OF assms(1), of "key_rnd rnd"]
  from text_roundtrip [OF inv assms(4), of "text_rnd rnd"] obtain enc where
    "encryptText aes (text_rnd rnd) (secret_or_space st) ?k = Inr enc" by blast
  moreover from pin_digest_ok [of st] assms(3) obtain d where "pin_digest st = Inr d" by blast
  moreover from encrypt_files_ok [OF inv, of "file_rnd rnd" "files st"] obtain ps where
    "encrypt_files aes (file_rnd rnd) ?k (files st) = Inr ps" by blast
  ultimately show ?thesis using assms(2,3) by (auto simp: create_request_def)
qed

lemma key_blind_AES_encrypt:
  "key_blind aes \<Longrightarrow> AES_encrypt aes m k ivb = AES_encrypt aes m k' ivb"
proof -
  assume "key_blind aes"
  then have h: "encryptBlock aes k = encryptBlock aes k'" by (auto simp: key_blind_def)
  show ?thesis unfolding AES_encrypt_def h ..
qed

lemma key_blind_encryptText:
  "key_blind aes \<Longrightarrow> encryptText aes rnd P K = encryptText aes rnd P K'"
  using key_blind_AES_encrypt [of aes P "hex_parse K" "hex_parse (generateIV rnd)" "hex_parse K'"]
  by (simp add: encryptText_def Let_def)

lemma key_blind_encryptFile:
  "key_blind aes \<Longrightarrow> encryptFile aes rnd f K = encryptFile aes rnd f K'"
proof -
  assume kb: "key_blind aes"
  have h: "AES_encrypt aes m (hex_parse K) ivb = AES_encrypt aes m (hex_parse K') ivb" for m ivb
    by (rule key_blind_AES_encrypt [OF kb])
  show ?thesis unfolding encryptFile_def Let_def h ..
qed

lemma key_blind_encrypt_files:
  "key_blind aes \<Longrightarrow> encrypt_files aes rnds K fs = encrypt_files aes rnds K' fs"
proof -
  assume kb: "key_blind aes"
  have h: "encrypt_one aes r K f = encrypt_one aes r K' f" for r f
    using key_blind_encryptFile [OF kb, of r f K K'] by (simp add: encrypt_one_def)
  show ?thesis unfolding encrypt_files_def h ..
qed

lemma key_blind_create_request:
  assumes "key_blind aes" "text_rnd rnd = text_rnd rnd'" "file_rnd rnd = file_rnd rnd'"
  shows "create_request aes rnd st = create_request aes rnd' st"
proof -
  have e1: "encryptText aes r P (generateEncryptionKey (key_rnd rnd))
            = encryptText aes r P (generateEncryptionKey (key_rnd rnd'))" for r P
    by (rule key_blind_encryptText [OF assms(1)])
  have e2: "encrypt_files aes rs (generateEncryptionKey (key_rnd rnd)) fs
            = encrypt_files aes rs (generateEncryptionKey (key_rnd rnd')) fs" for rs fs
    by (rule key_blind_encrypt_files [OF assms(1)])
  show ?thesis unfolding create_request_def assms(2,3) e1 e2 ..
qed


lemma create_request_fields:
  assumes "create_request aes rnd st = Some p"
  shows "\<exists>ct. AES_encrypt aes (secret_or_space st)
              (hex_parse (generateEncryptionKey (key_rnd rnd)))
              (hex_parse (generateIV (text_rnd rnd))) = Inr ct
            \<and> sp_encryptedData p = base64_encode ct"
    and "sp_iv p = generateIV (text_rnd rnd)"
    and "pin_digest st = Inr (sp_pinHash p)"
    and "sp_expiryMinutes p = parseInt (expiryMinutes st)"
    and "sp_oneTimeView p = oneTimeView st"
    and "encrypt_files aes (file_rnd rnd) (generateEncryptionKey (key_rnd rnd)) (files st)
         = Inr (sp_files p)"
    and "\<exists>r. encryptText aes (text_rnd rnd) (secret_or_space st)
               (generateEncryptionKey (key_rnd rnd)) = Inr r
             \<and> sp_encryptedData p = ciphertext r \<and> sp_iv p = iv r"
  using assms
  by (auto simp: create_request_def encryptText_def Let_def split: if_splits sum.splits)

section \<open>Decoded text encodes to the bytes it came from\<close>

lemma digits2:
  fixes h l :: int
  assumes "0 \<le> l" "l < 64"
  shows "(h * 64 + l) div 64 = h" "(h * 64 + l) mod 64 = l"
  using assms by simp_all

lemma digits3:
  fixes h m l :: int
  assumes "0 \<le> m" "m < 64" "0 \<le> l" "l < 64"
  shows "(h * 4096 + m * 64 + l) div 4096 = h" "(h * 4096 + m * 64 + l) div 64 mod 64 = m"
    "(h * 4096 + m * 64 + l) mod 64 = l"
proof -
  have e: "h * 4096 + m * 64 + l = (h * 64 + m) * 64 + l" by (simp add: algebra_simps)
  have d: "(h * 4096 + m * 64 + l) div 64 = h * 64 + m"
    unfolding e using assms by (intro digits2)
  show "(h * 4096 + m * 64 + l) mod 64 = l" unfolding e using assms by (intro digits2)
  show "(h * 4096 + m * 64 + l) div 64 mod 64 = m" unfolding d using assms by (intro digits2)
  have "(h * 4096 + m * 64 + l) div 4096 = (h * 4096 + m * 64 + l) div 64 div 64"
    by (simp add: zdiv_zmult2_eq [symmetric])
  also have "\<dots> = h" unfolding d using assms by (intro digits2)
  finally show "(h * 4096 + m * 64 + l) div 4096 = h" .
qed

lemma digits4:
  fixes h m n l :: int
  assumes "0 \<le> m" "m < 64" "0 \<le> n" "n < 64" "0 \<le> l" "l < 64"
  shows "(h * 262144 + m * 4096 + n * 64 + l) div 262144 = h"
    "(h * 262144 + m * 4096 + n * 64 + l) div 4096 mod 64 = m"
    "(h * 262144 + m * 4096 + n * 64 + l) div 64 mod 64 = n"
    "(h * 262144 + m * 4096 + n * 64 + l) mod 64 = l"
proof -
  let ?v = "h * 262144 + m * 4096 + n * 64 + l"
  have e: "?v = (h * 64 + m) * 4096 + n * 64 + l" by (simp add: algebra_simps)
  show "?v mod 64 = l" unfolding e using assms by (intro digits3)
  show "?v div 64 mod 64 = n" unfolding e using assms by (intro digits3)
  have d: "?v div 4096 = h * 64 + m" unfolding e using assms by (intro digits3)
  show "?v div 4096 mod 64 = m" unfolding d using assms by (intro digits2)
  have "?v div 262144 = ?v div 4096 div 64" by (simp add: zdiv_zmult2_eq [symmetric])
  also have "\<dots> = h" unfolding d using assms by (intro digits2)
  finally show "?v div 262144 = h" .
qed

lemma continuation_digit: "is_continuation b \<Longrightarrow> 0 \<le> uint b - 0x80 \<and> uint b - 0x80 < 64"
  by (simp add: is_continuation_def)

lemma byte_rebuild: "(of_int (k + (uint (b :: byte) - k)) :: byte) = b"
  by simp

section \<open>The SHA-256 of the library is the SHA-256 of the standard\<close>

lemma first_primes_eq:
  "first_primes = [2,3,5,7,11,13,17,19,23,29,31,37,41,43,47,53,59,61,67,71,73,79,83,89,97,101,103,107,109,113,127,131,137,139,149,151,157,163,167,173,179,181,191,193,197,199,211,223,227,229,233,239,241,251,257,263,269,271,277,281,283,293,307,311]"
  by code_simp

lemma floor_root_between_bounds:
  "lo < hi \<Longrightarrow> lo ^ n \<le> x \<Longrightarrow> x < hi ^ n \<Longrightarrow>
   floor_root_between n x lo hi ^ n \<le> x \<and> x < (floor_root_between n x lo hi + 1) ^ n
   \<and> lo \<le> floor_root_between n x lo hi"
proof (induction n x lo hi rule: floor_root_between.induct)
  case (1 n x lo hi)
  show ?case
  proof (cases "hi - lo \<le> 1")
    case True
    with 1(3) have "hi = lo + 1" by simp
    with True 1(4,5) show ?thesis by (subst (1 2 3) floor_root_between.simps) simp
  next
    case False
    define mid where "mid = (lo + hi) div 2"
    from False have m: "lo < mid" "mid < hi" unfolding mid_def by linarith+
    show ?thesis
    proof (cases "mid ^ n \<le> x")
      case True
      from 1(1) [OF False mid_def True m(2) True 1(5)] m(1)
      have "floor_root_between n x mid hi ^ n \<le> x
        \<and> x < (floor_root_between n x mid hi + 1) ^ n \<and> lo \<le> floor_root_between n x mid hi"
        by simp
      moreover have "floor_root_between n x lo hi = floor_root_between n x mid hi"
        using False True by (subst floor_root_between.simps) (simp add: mid_def Let_def)
      ultimately show ?thesis by simp
    next
      case F: False
      then have "x < mid ^ n" by simp
      from 1(2) [OF False mid_def F m(1) 1(4) this]
      have "floor_root_between n x lo mid ^ n \<le> x
        \<and> x < (floor_root_between n x lo mid + 1) ^ n \<and> lo \<le> floor_root_between n x lo mid" .
      moreover have "floor_root_between n x lo hi = floor_root_between n x lo mid"
        using False F by (subst floor_root_between.simps) (simp add: mid_def Let_def)
      ultimately show ?thesis by simp
    qed
  qed
qed

lemma root_unique:
  fixes r s :: int
  assumes "0 \<le> r" "0 \<le> s" "r ^ n \<le> x" "x < (r + 1) ^ n" "s ^ n \<le> x" "x < (s + 1) ^ n"
  shows "r = s"
proof (rule ccontr)
  assume "r \<noteq> s"
  then consider "r + 1 \<le> s" | "s + 1 \<le> r" by linarith
  then show False
  proof cases
    case 1
    then have "(r + 1) ^ n \<le> s ^ n" using assms(1) by (intro power_mono) simp_all
    with assms show False by linarith
  next
    case 2
    then have "(s + 1) ^ n \<le> r ^ n" using assms(2) by (intro power_mono) simp_all
    with assms show False by linarith
  qed
qed

lemma floor_root_eq:
  assumes "0 < n" "0 \<le> r" "r ^ n \<le> x" "x < (r + 1) ^ n"
  shows "floor_root n x = r"
proof -
  have x0: "0 \<le> x" using assms(2,3) by (meson order_trans zero_le_power)
  have "x < (x + 1) ^ n"
  proof -
    have "x + 1 \<le> (x + 1) ^ n" using x0 assms(1) by (intro self_le_power) simp_all
    then show ?thesis by simp
  qed
  moreover have "(0::int) ^ n \<le> x" using x0 assms(1) by (simp add: power_0_left)
  ultimately have b: "floor_root n x ^ n \<le> x \<and> x < (floor_root n x + 1) ^ n \<and> 0 \<le> floor_root n x"
    unfolding floor_root_def using x0 by (intro floor_root_between_bounds) simp_all
  show ?thesis
    by (rule root_unique [of "floor_root n x" r n x]) (use b assms in simp_all)
qed

lemma sha256_K_roots: "list_all2 (is_root_bits 3) first_primes sha256_K"
  unfolding first_primes_eq by code_simp

lemma sha256_H0_roots:
  "list_all2 (is_root_bits 2) (take 8 first_primes)
     (case sha256_H0 of (a, b, c, d, e, f, g, h) \<Rightarrow> [a, b, c, d, e, f, g, h])"
  unfolding first_primes_eq by code_simp

lemma root_bits_value:
  assumes "is_root_bits n p k" "0 < n"
  shows "uint (frac_root_bits n p) = k"
proof -
  from assms(1) obtain i where i: "0 \<le> i" "(i * 4294967296 + k) ^ n \<le> p * 2 ^ (32 * n)"
    "p * 2 ^ (32 * n) < (i * 4294967296 + k + 1) ^ n" and k: "0 \<le> k" "k < 4294967296"
    unfolding is_root_bits_def by auto
  have fr: "floor_root n (p * 2 ^ (32 * n)) = i * 4294967296 + k"
    using assms(2) i k by (intro floor_root_eq) simp_all
  have "uint (frac_root_bits n p) = floor_root n (p * 2 ^ (32 * n)) mod 2 ^ 32"
    unfolding frac_root_bits_def uint_word_of_int by simp
  also have "\<dots> = (k + i * 4294967296) mod 4294967296" unfolding fr by (simp add: add.commute)
  also have "\<dots> = k" using k by simp
  finally show ?thesis .
qed

lemma length_first_primes: "length first_primes = 64"
  unfolding first_primes_eq by simp

lemma length_sha256_K: "length sha256_K = 64"
  unfolding sha256_K_def by simp

lemma sha256_K_fips: "t < 64 \<Longrightarrow> sha256_K ! t = uint (fips_K t)"
  unfolding fips_K_def
  using list_all2_nthD [OF sha256_K_roots, of t] root_bits_value [of 3 "first_primes ! t" "sha256_K ! t"]
  by (simp add: length_first_primes)

lemma sha256_H0_fips: "sha256_H0 = word_values fips_H0"
proof -
  have n: "\<And>t. t < 8 \<Longrightarrow> take 8 first_primes ! t = first_primes ! t" by simp
  have "list_all2 (\<lambda>p k. uint (frac_root_bits 2 p) = k) (take 8 first_primes)
     (case sha256_H0 of (a, b, c, d, e, f, g, h) \<Rightarrow> [a, b, c, d, e, f, g, h])"
    by (rule list_all2_mono [OF sha256_H0_roots]) (simp add: root_bits_value)
  then show ?thesis
    unfolding fips_H0_def word_values_def sha256_H0_def first_primes_eq by simp
qed

lemma uint32_bounds: "0 \<le> uint (w :: word32)" "uint (w :: word32) < 4294967296"
  using uint_lt2p [of w] by simp_all

lemma take_bit_uint32: "take_bit 32 (uint (w :: word32)) = uint w"
  using uint32_bounds [of w] by (simp add: take_bit_int_eq_self)

lemma uint_drop: "uint (drop_bit n w) = uint (w :: word32) div 2 ^ n"
  unfolding unsigned_drop_bit_eq by (simp add: take_bit_uint32 drop_bit_eq_div)

lemma u32_uint: "u32 x = uint (word_of_int x :: word32)"
  by (simp add: u32_def uint_word_of_int)

lemma uint_not32: "4294967295 - uint (w::word32) = uint (NOT w)"
proof -
  define u where "u = uint w"
  have b: "0 \<le> u" "u < 4294967296" unfolding u_def by (rule uint32_bounds)+
  have "uint (NOT w) = (- u - 1) mod 4294967296"
    unfolding unsigned_not_eq u_def by (simp add: not_int_def take_bit_eq_mod)
  also have "\<dots> = (4294967295 - u) mod 4294967296"
    using mod_add_self2 [of "- u - 1" 4294967296] by (simp add: algebra_simps)
  also have "\<dots> = 4294967295 - u" using b by simp
  finally show ?thesis unfolding u_def by simp
qed

lemma rotr32_uint:
  assumes "n \<le> 32"
  shows "rotr32 n (uint (w :: word32)) = uint (ROTR n w)"
proof -
  define u where "u = uint w"
  have t: "take_bit 32 u = u" unfolding u_def by (rule take_bit_uint32)
  have "uint (ROTR n w) = drop_bit n u OR take_bit 32 (push_bit (32 - n) u)"
    unfolding ROTR_def uint_or unsigned_drop_bit_eq unsigned_push_bit_eq u_def
    by (simp add: take_bit_uint32)
  also have "take_bit 32 (push_bit (32 - n) u) = push_bit (32 - n) (take_bit n u)"
    using assms by (simp add: take_bit_push_bit)
  also have "drop_bit n u = take_bit (32 - n) (drop_bit n u)"
    using assms t by (simp add: take_bit_drop_bit)
  also have "take_bit (32 - n) (drop_bit n u) OR push_bit (32 - n) (take_bit n u)
     = take_bit (32 - n) (drop_bit n u) + push_bit (32 - n) (take_bit n u)"
    unfolding concat_bit_def [symmetric] by (rule concat_bit_eq)
  also have "take_bit (32 - n) (drop_bit n u) = drop_bit n u"
    using assms t by (simp add: take_bit_drop_bit)
  finally show ?thesis
    unfolding rotr32_def u_def by (simp add: drop_bit_eq_div push_bit_eq_mult take_bit_eq_mod)
qed

lemma state_cases:
  obtains a b c d e f g h where "(v :: fips_state) = (a, b, c, d, e, f, g, h)"
  by (metis surj_pair)

lemma uint_BSIG0: "rotr32 2 (uint a) XOR rotr32 13 (uint a) XOR rotr32 22 (uint a) = uint (BSIG0 a)"
  by (simp add: rotr32_uint BSIG0_def uint_xor)

lemma uint_BSIG1: "rotr32 6 (uint a) XOR rotr32 11 (uint a) XOR rotr32 25 (uint a) = uint (BSIG1 a)"
  by (simp add: rotr32_uint BSIG1_def uint_xor)

lemma uint_SSIG0: "rotr32 7 (uint a) XOR rotr32 18 (uint a) XOR uint a div 2 ^ 3 = uint (SSIG0 a)"
  unfolding SSIG0_def SHR_def uint_xor uint_drop by (simp add: rotr32_uint)

lemma uint_SSIG1: "rotr32 17 (uint a) XOR rotr32 19 (uint a) XOR uint a div 2 ^ 10 = uint (SSIG1 a)"
  unfolding SSIG1_def SHR_def uint_xor uint_drop by (simp add: rotr32_uint)

lemma uint_Ch: "(uint e AND uint f) XOR ((4294967295 - uint e) AND uint g) = uint (Ch e f g)"
  unfolding Ch_def uint_xor uint_and uint_not32 ..

lemma uint_Maj: "(uint a AND uint b) XOR (uint a AND uint c) XOR (uint b AND uint c) = uint (Maj a b c)"
  unfolding Maj_def uint_xor uint_and ..

lemma sha256_round_fips:
  "t < 64 \<Longrightarrow>
   sha256_round (word_values v) (sha256_K ! t, uint (fips_W M t)) = word_values (fips_step M v t)"
proof -
  assume t: "t < 64"
  obtain a b c d e f g h where v: "v = (a, b, c, d, e, f, g, h)" by (rule state_cases)
  show ?thesis
    unfolding v word_values_def sha256_round_def fips_step_def sha256_K_fips [OF t]
    by (simp add: Let_def uint_BSIG0 uint_BSIG1 uint_Ch uint_Maj u32_uint)
qed

lemma sha256_rounds_fips:
  assumes "n \<le> 64"
  shows "foldl sha256_round (word_values H)
           (take n (zip sha256_K (map (\<lambda>t. uint (fips_W M t)) [0..<64])))
         = word_values (foldl (fips_step M) H [0..<n])"
  using assms
proof (induction n)
  case 0
  show ?case by simp
next
  case (Suc n)
  then have n: "n < 64" by simp
  have z: "zip sha256_K (map (\<lambda>t. uint (fips_W M t)) [0..<64]) ! n
           = (sha256_K ! n, uint (fips_W M n))"
    using n by (simp add: length_sha256_K)
  have l: "n < length (zip sha256_K (map (\<lambda>t. uint (fips_W M t)) [0..<64]))"
    using n by (simp add: length_sha256_K)
  show ?case
    unfolding take_Suc_conv_app_nth [OF l] z
    using Suc.IH n by (simp add: sha256_round_fips)
qed

lemma schedule_fips:
  "16 \<le> length W \<Longrightarrow> W = map (\<lambda>t. uint (fips_W M t)) [0..<length W] \<Longrightarrow>
   sha256_schedule n W = map (\<lambda>t. uint (fips_W M t)) [0..<length W + n]"
proof (induction n arbitrary: W)
  case 0
  then show ?case by simp
next
  case (Suc n)
  define i where "i = length W"
  have i: "16 \<le> i" using Suc.prems(1) by (simp add: i_def)
  have nth: "\<And>j. j < i \<Longrightarrow> W ! j = uint (fips_W M j)"
  proof -
    fix j assume "j < i"
    then have "map (\<lambda>t. uint (fips_W M t)) [0..<length W] ! j = uint (fips_W M j)"
      by (simp add: i_def)
    then show "W ! j = uint (fips_W M j)" using Suc.prems(2) by simp
  qed
  have w: "fips_W M i = SSIG1 (fips_W M (i - 2)) + fips_W M (i - 7) + SSIG0 (fips_W M (i - 15))
                        + fips_W M (i - 16)"
    using i by (subst fips_W.simps) simp
  define x where "x = u32 ((rotr32 7 (W ! (i - 15)) XOR rotr32 18 (W ! (i - 15)) XOR W ! (i - 15) div 2 ^ 3)
          + W ! (i - 7)
          + (rotr32 17 (W ! (i - 2)) XOR rotr32 19 (W ! (i - 2)) XOR W ! (i - 2) div 2 ^ 10)
          + W ! (i - 16))"
  have "x = u32 (uint (SSIG0 (fips_W M (i - 15))) + uint (fips_W M (i - 7))
             + uint (SSIG1 (fips_W M (i - 2))) + uint (fips_W M (i - 16)))"
    unfolding x_def using i by (simp only: nth uint_SSIG0 uint_SSIG1 diff_less) 
  also have "\<dots> = uint (fips_W M i)"
    unfolding w by (simp add: u32_uint ac_simps)
  finally have x: "x = uint (fips_W M i)" .
  have step: "sha256_schedule (Suc n) W = sha256_schedule n (W @ [x])"
    unfolding x_def i_def by (simp add: Let_def)
  have W': "W @ [x] = map (\<lambda>t. uint (fips_W M t)) [0..<length (W @ [x])]"
    using Suc.prems(2) x by (simp add: i_def)
  have "16 \<le> length (W @ [x])" using i by (simp add: i_def)
  from Suc.IH [OF this W'] show ?case unfolding step by (simp add: i_def)
qed

lemma sha256_block_fips:
  assumes "length M = 16"
  shows "sha256_block (word_values H) (map uint M) = word_values (fips_block H M)"
proof -
  have "map uint M = map (\<lambda>t. uint (M ! t)) [0..<length M]"
    by (rule nth_equalityI) simp_all
  also have "\<dots> = map (\<lambda>t. uint (fips_W M t)) [0..<length M]"
    using assms by (simp add: fips_W.simps)
  finally have m: "map uint M = map (\<lambda>t. uint (fips_W M t)) [0..<length (map uint M)]" by simp
  have s: "sha256_schedule 48 (map uint M) = map (\<lambda>t. uint (fips_W M t)) [0..<64]"
    using schedule_fips [OF _ m, of 48] assms by simp
  have r: "foldl sha256_round (word_values H) (zip sha256_K (map (\<lambda>t. uint (fips_W M t)) [0..<64]))
           = word_values (foldl (fips_step M) H [0..<64])"
    using sha256_rounds_fips [of 64 H M] by (simp add: length_sha256_K)
  obtain a b c d e f g h where H: "H = (a, b, c, d, e, f, g, h)" by (rule state_cases)
  obtain a' b' c' d' e' f' g' h' where
    R: "foldl (fips_step M) (a, b, c, d, e, f, g, h) [0..<64] = (a', b', c', d', e', f', g', h')"
    by (rule state_cases)
  show ?thesis
    unfolding sha256_block_def s r fips_block_def
    unfolding H R word_values_def
    by (simp add: u32_uint add.commute)
qed

lemma or_push_bit_int:
  fixes e b :: int
  assumes "0 \<le> e" "e < 2 ^ k"
  shows "push_bit k b OR e = b * 2 ^ k + e"
proof -
  have e: "take_bit k e = e" using assms by (simp add: take_bit_int_eq_self)
  have "push_bit k b OR e = take_bit k e OR push_bit k b" unfolding e by (rule or.commute)
  also have "\<dots> = take_bit k e + push_bit k b"
    unfolding concat_bit_def [symmetric] by (rule concat_bit_eq)
  finally show ?thesis unfolding e by (simp add: push_bit_eq_mult)
qed

lemma uint_push_byte:
  assumes "n \<le> 24"
  shows "uint (push_bit n (ucast (a :: byte)) :: word32) = push_bit n (uint a)"
proof -
  have u: "uint (ucast a :: word32) = uint a" by (rule uint_up_ucast) (simp add: is_up)
  have "(2::int) ^ 8 \<le> 2 ^ (32 - n)" using assms by (intro power_increasing) simp_all
  then have "uint a < 2 ^ (32 - n)" using uint_byte_bounds [of a] by simp
  then have "take_bit (32 - n) (uint a) = uint a"
    using uint_byte_bounds [of a] by (intro take_bit_int_eq_self) simp_all
  then show ?thesis
    unfolding unsigned_push_bit_eq u using assms by (simp add: take_bit_push_bit)
qed

lemma uint_fips_word:
  "uint (fips_word a b c d) = uint a * 16777216 + uint b * 65536 + uint c * 256 + uint d"
proof -
  have u: "uint (ucast d :: word32) = uint d" by (rule uint_up_ucast) (simp add: is_up)
  note B = uint_byte_bounds
  have 1: "push_bit 8 (uint c) OR uint d = uint c * 2 ^ 8 + uint d"
    using B [of d] by (intro or_push_bit_int) simp_all
  have 2: "push_bit 16 (uint b) OR (uint c * 2 ^ 8 + uint d) = uint b * 2 ^ 16 + (uint c * 2 ^ 8 + uint d)"
    using B [of d] B [of c] by (intro or_push_bit_int) simp_all
  have 3: "push_bit 24 (uint a) OR (uint b * 2 ^ 16 + (uint c * 2 ^ 8 + uint d))
           = uint a * 2 ^ 24 + (uint b * 2 ^ 16 + (uint c * 2 ^ 8 + uint d))"
    using B [of d] B [of c] B [of b] by (intro or_push_bit_int) simp_all
  have "uint (fips_word a b c d)
        = push_bit 24 (uint a) OR (push_bit 16 (uint b) OR (push_bit 8 (uint c) OR uint d))"
    unfolding fips_word_def uint_or u by (simp add: uint_push_byte)
  also have "\<dots> = uint a * 2 ^ 24 + (uint b * 2 ^ 16 + (uint c * 2 ^ 8 + uint d))"
    unfolding 1 2 3 ..
  finally show ?thesis by simp
qed

lemma be_bytes_fips: "be_bytes (uint w) = fips_bytes w"
  unfolding be_bytes_def fips_bytes_def ucast_eq uint_drop by simp

lemma be_bytes_drop: "be_bytes w = map (\<lambda>k. word_of_int (drop_bit k w)) [24, 16, 8, 0]"
  unfolding be_bytes_def drop_bit_eq_div by simp

lemma byte_of_drop:
  assumes "k + 8 \<le> 64"
  shows "(word_of_int (drop_bit k (take_bit 64 N)) :: byte) = word_of_int (drop_bit k N)"
proof -
  have m: "min 8 (64 - k) = 8" using assms by simp
  have "take_bit 8 (drop_bit k (take_bit 64 N)) = take_bit 8 (drop_bit k N)"
    unfolding drop_bit_take_bit take_bit_take_bit m ..
  then show ?thesis unfolding word_of_int_eq_iff by simp
qed

lemma ucast_drop_length:
  assumes "k + 8 \<le> 64"
  shows "(ucast (drop_bit k (word_of_nat (8 * l) :: 64 word)) :: byte) = word_of_int (drop_bit k (int l * 8))"
proof -
  have w: "(word_of_nat (8 * l) :: 64 word) = word_of_int (int l * 8)" by simp
  have u: "uint (word_of_nat (8 * l) :: 64 word) = take_bit 64 (int l * 8)"
    unfolding w uint_word_of_int_eq by simp
  show ?thesis
    unfolding ucast_eq unsigned_drop_bit_eq u take_bit_take_bit
    using byte_of_drop [OF assms] by simp
qed

lemma length_bytes_fips:
  "be_bytes (int l * 8 div 4294967296) @ be_bytes (int l * 8) = fips_length (8 * l)"
proof -
  have "(4294967296::int) = 2 ^ 32" by simp
  then have h: "int l * 8 div 4294967296 = drop_bit 32 (int l * 8)"
    unfolding drop_bit_eq_div by simp
  show ?thesis
    unfolding h be_bytes_drop fips_length_def
    using ucast_drop_length [of 0 l] by (simp add: ucast_drop_length drop_bit_drop_bit del: of_nat_mult)
qed

lemma zero_bytes_count: "(119 - l mod 64) mod 64 = nat ((55 - int l) mod 64)"
proof -
  define r where "r = l mod 64"
  have r: "r < 64" unfolding r_def by simp
  have "(55 - int l) mod 64 = (55 - int l mod 64) mod 64"
    by (rule mod_diff_right_eq [symmetric])
  also have "int l mod 64 = int r" unfolding r_def by (simp add: zmod_int)
  finally have e: "(55 - int l) mod 64 = (55 - int r) mod 64" .
  show ?thesis
  proof (cases "r \<le> 55")
    case True
    have i: "(55 - int r) mod 64 = int (55 - r)"
      using True by (subst mod_pos_pos_trivial) simp_all
    have "119 - r = 55 - r + 64" using True by linarith
    then have "(119 - r) mod 64 = (55 - r + 64) mod 64" by (rule arg_cong)
    also have "\<dots> = (55 - r) mod 64" by (rule mod_add_self2)
    also have "\<dots> = 55 - r" by (rule mod_less) (use True in linarith)
    finally show ?thesis unfolding r_def [symmetric] e i nat_int .
  next
    case False
    have "(55 - int r) mod 64 = (55 - int r + 64) mod 64" by (rule mod_add_self2 [symmetric])
    also have "55 - int r + 64 = int (119 - r)" using r by linarith
    also have "int (119 - r) mod 64 = int (119 - r)"
      using False r by (intro mod_pos_pos_trivial) linarith+
    finally have i: "(55 - int r) mod 64 = int (119 - r)" .
    have "(119 - r) mod 64 = 119 - r" by (rule mod_less) (use False r in linarith)
    then show ?thesis unfolding r_def [symmetric] e i nat_int .
  qed
qed

lemma sha256_pad_fips: "sha256_pad m = fips_pad m"
  unfolding sha256_pad_def fips_pad_def Let_def zero_bytes_count length_bytes_fips ..

lemma length_be_words: "length (be_words bs) = length bs div 4"
  by (induction bs rule: be_words.induct) simp_all

lemma be_words_short: "length bs < 4 \<Longrightarrow> be_words bs = []"
  by (cases bs rule: be_words.cases) simp_all

lemma be_words_drop: "be_words (drop (4 * k) bs) = drop k (be_words bs)"
proof (induction k arbitrary: bs)
  case 0
  show ?case by simp
next
  case (Suc k)
  show ?case
  proof (cases "length bs < 4")
    case True
    then show ?thesis by (simp add: be_words_short)
  next
    case False
    then obtain a b c d r where bs: "bs = a # b # c # d # r"
      by (cases bs rule: be_words.cases) simp_all
    have e: "4 * Suc k = Suc (Suc (Suc (Suc (4 * k))))" by simp
    show ?thesis unfolding bs e using Suc.IH [of r] by simp
  qed
qed

lemma be_words_nth:
  "4 * j + 3 < length bs \<Longrightarrow>
   be_words bs ! j = uint (fips_word (bs ! (4 * j)) (bs ! (4 * j + 1)) (bs ! (4 * j + 2)) (bs ! (4 * j + 3)))"
proof (induction j arbitrary: bs)
  case 0
  then obtain a b c d r where bs: "bs = a # b # c # d # r"
    by (cases bs rule: be_words.cases) simp_all
  show ?case unfolding bs by (simp add: uint_fips_word)
next
  case (Suc j)
  then obtain a b c d r where bs: "bs = a # b # c # d # r"
    by (cases bs rule: be_words.cases) simp_all
  have e: "4 * Suc j = Suc (Suc (Suc (Suc (4 * j))))" by simp
  have "4 * j + 3 < length r" using Suc.prems unfolding bs by simp
  from Suc.IH [OF this] show ?case unfolding bs e by (simp add: add.commute)
qed

lemma take16_be_words:
  assumes "64 \<le> length bs"
  shows "take 16 (be_words bs) = map uint (fips_block_words (take 64 bs))"
proof (rule nth_equalityI)
  show "length (take 16 (be_words bs)) = length (map uint (fips_block_words (take 64 bs)))"
    using assms by (simp add: length_be_words fips_block_words_def)
next
  fix j assume "j < length (take 16 (be_words bs))"
  then have j: "j < 16" by simp
  then have l: "4 * j + 3 < length bs" using assms by simp
  have t: "\<And>i. i < 64 \<Longrightarrow> take 64 bs ! i = bs ! i" by simp
  have "map uint (fips_block_words (take 64 bs)) ! j
        = uint (fips_word (bs ! (4 * j)) (bs ! (4 * j + 1)) (bs ! (4 * j + 2)) (bs ! (4 * j + 3)))"
    unfolding fips_block_words_def using j by (simp add: t)
  then show "take 16 (be_words bs) ! j = map uint (fips_block_words (take 64 bs)) ! j"
    using j be_words_nth [OF l] by simp
qed

lemma groups16_fips:
  "64 * n \<le> length bs \<Longrightarrow>
   groups16 n (be_words bs)
   = map (\<lambda>i. map uint (fips_block_words (take 64 (drop (64 * i) bs)))) [0..<n]"
proof (induction n arbitrary: bs)
  case 0
  show ?case by simp
next
  case (Suc n)
  have l: "64 \<le> length bs" using Suc.prems by simp
  have d: "drop 16 (be_words bs) = be_words (drop 64 bs)"
    using be_words_drop [of 16 bs] by simp
  have "64 * n \<le> length (drop 64 bs)" using Suc.prems by simp
  from Suc.IH [OF this]
  have r: "groups16 n (be_words (drop 64 bs))
           = map (\<lambda>i. map uint (fips_block_words (take 64 (drop (64 * Suc i) bs)))) [0..<n]"
    by (simp add: add.commute)
  show ?case
    unfolding groups16.simps d r take16_be_words [OF l] map_upt_Suc by simp
qed

lemma groups16_fips_blocks:
  "groups16 (length bs div 64) (be_words bs) = map (map uint) (fips_blocks bs)"
  unfolding fips_blocks_def by (simp add: groups16_fips comp_def)

lemma length_fips_block_words: "length (fips_block_words B) = 16"
  unfolding fips_block_words_def by simp

lemma sha256_blocks_fips:
  "\<forall>M \<in> set Ms. length M = 16 \<Longrightarrow>
   foldl sha256_block (word_values H) (map (map uint) Ms) = word_values (foldl fips_block H Ms)"
  by (induction Ms arbitrary: H) (simp_all add: sha256_block_fips)

lemma SHA256_fips: "SHA256 m = sha256_fips m"
proof -
  have l: "\<forall>M \<in> set (fips_blocks (fips_pad m)). length M = 16"
    unfolding fips_blocks_def by (simp add: length_fips_block_words)
  obtain a b c d e f g h where
    R: "foldl fips_block fips_H0 (fips_blocks (fips_pad m)) = (a, b, c, d, e, f, g, h)"
    by (rule state_cases)
  show ?thesis
    unfolding SHA256_def sha256_fips_def Let_def sha256_pad_fips groups16_fips_blocks
      sha256_H0_fips sha256_blocks_fips [OF l] R
    by (simp add: word_values_def be_bytes_fips)
qed

section \<open>Key and IV generation: claim C6\<close>

text \<open>
  C6. Every value returned by \<^verbatim>\<open>generateEncryptionKey\<close> is a string of 64 hexadecimal
  digits that encodes exactly 32 bytes (the bytes drawn), and every value returned by
  \<^verbatim>\<open>generateIV\<close> is a string of 32 hexadecimal digits that encodes exactly 16 bytes.
\<close>

theorem generated_key_and_iv_shape:
  "length (generateEncryptionKey rnd) = 64
   \<and> list_all lower_hex (generateEncryptionKey rnd)
   \<and> hex_parse (generateEncryptionKey rnd) = getRandomValues rnd 32
   \<and> length (hex_parse (generateEncryptionKey rnd)) = 32
   \<and> length (generateIV rnd') = 32
   \<and> list_all lower_hex (generateIV rnd')
   \<and> hex_parse (generateIV rnd') = getRandomValues rnd' 16
   \<and> length (hex_parse (generateIV rnd')) = 16"
  by (simp add: generateEncryptionKey_eq generateIV_eq length_hex_stringify
      lower_hex_hex_stringify hex_parse_hex_stringify length_getRandomValues)

section \<open>The PIN digest: claim C8\<close>

lemma hashPin_1234:
  "hashPin (lit ''1234'')
   = Inr (lit ''03ac674216f3e15c761ee1a5e255f067953623c8b388b4459e13f978d7c846f4'')"
  by code_simp

lemma hashPin_12345:
  "hashPin (lit ''12345'')
   = Inr (lit ''5994471abb01112afcc18159f6cc74b4f511b99806da59b3caf5a9c173cacfc5'')"
  by code_simp

lemma digests_differ:
  "lit ''03ac674216f3e15c761ee1a5e255f067953623c8b388b4459e13f978d7c846f4''
   \<noteq> lit ''5994471abb01112afcc18159f6cc74b4f511b99806da59b3caf5a9c173cacfc5''"
  by (simp add: lit_def)

lemma pin_facts:
  "well_formed (lit ''1234'')"
  "\<not> well_formed lone_surrogate"
  "\<forall>c \<in> set (lit ''1234''). uint c < 0x80"
  by code_simp+

lemma length_sha256_fips: "length (sha256_fips m) = 32"
proof -
  obtain a b c d e f g h where
    R: "foldl fips_block fips_H0 (fips_blocks (fips_pad m)) = (a, b, c, d, e, f, g, h)"
    by (rule state_cases)
  show ?thesis unfolding sha256_fips_def R by (simp add: fips_bytes_def)
qed

lemma utf8_parse_ascii: "\<forall>c \<in> set p. uint c < 0x80 \<Longrightarrow> utf8_parse p = Inr (map ucast p)"
proof (induction p)
  case Nil
  show ?case by simp
next
  case (Cons c cs)
  then have c: "uint c < 0x80" and r: "utf8_parse cs = Inr (map ucast cs)" by simp_all
  have "utf8_of_codepoint (uint c) = [ucast c]"
    using c unfolding utf8_of_codepoint_def ucast_eq by simp
  then show ?case
    using c r by (simp add: is_low_surrogate_def is_high_surrogate_def)
qed

text \<open>
  C8 as stated fails for a PIN with an unpaired surrogate, which has no UTF-8 bytes:
  \<^verbatim>\<open>hashPin("\uD800")\<close> throws \<^verbatim>\<open>URIError\<close> and returns no digest.
\<close>

theorem hashPin_counterexample:
  "hashPin lone_surrogate = Inl URIError"
  by code_simp

text \<open>
  C8, amended. For every well-formed PIN (no unpaired surrogate) \<^verbatim>\<open>hashPin(pin)\<close> is the
  SHA-256 digest of the UTF-8 bytes of the PIN, printed as 64 lower-case hexadecimal
  digits, where SHA-256 is the function \<^const>\<open>sha256_fips\<close> of the standard, with which the
  function \<^const>\<open>SHA256\<close> of the library agrees on every message, and where the bytes decode
  to the PIN and are its characters when these are ASCII. It is a function of the PIN
  alone, so two calls with the same PIN return the same digest; the digests of \<^verbatim>\<open>"1234"\<close>
  and \<^verbatim>\<open>"12345"\<close> are the two known SHA-256 values, and they differ. For a PIN with an
  unpaired surrogate \<^verbatim>\<open>hashPin\<close> throws \<^verbatim>\<open>URIError\<close>.
\<close>

theorem hashPin_is_sha256_of_utf8:
  "SHA256 m = sha256_fips m
   \<and> (well_formed p \<longrightarrow>
      (\<exists>bytes. utf8_parse p = Inr bytes \<and> utf8_stringify bytes = Inr p
         \<and> hashPin p = Inr (hex_stringify (sha256_fips bytes))
         \<and> length (hex_stringify (sha256_fips bytes)) = 64
         \<and> list_all lower_hex (hex_stringify (sha256_fips bytes))
         \<and> hex_parse (hex_stringify (sha256_fips bytes)) = sha256_fips bytes))
   \<and> ((\<forall>c \<in> set p. uint c < 0x80) \<longrightarrow>
        hashPin p = Inr (hex_stringify (sha256_fips (map ucast p))))
   \<and> (\<not> well_formed p \<longrightarrow> hashPin p = Inl URIError)
   \<and> hashPin (lit ''1234'')
       = Inr (lit ''03ac674216f3e15c761ee1a5e255f067953623c8b388b4459e13f978d7c846f4'')
   \<and> hashPin (lit ''12345'')
       = Inr (lit ''5994471abb01112afcc18159f6cc74b4f511b99806da59b3caf5a9c173cacfc5'')
   \<and> hashPin (lit ''1234'') \<noteq> hashPin (lit ''12345'')"
proof -
  have c1: "SHA256 m = sha256_fips m" by (rule SHA256_fips)
  have c2: "well_formed p \<longrightarrow>
      (\<exists>bytes. utf8_parse p = Inr bytes \<and> utf8_stringify bytes = Inr p
         \<and> hashPin p = Inr (hex_stringify (sha256_fips bytes))
         \<and> length (hex_stringify (sha256_fips bytes)) = 64
         \<and> list_all lower_hex (hex_stringify (sha256_fips bytes))
         \<and> hex_parse (hex_stringify (sha256_fips bytes)) = sha256_fips bytes)"
  proof
    assume "well_formed p"
    from utf8_parse_well_formed [OF this] obtain bytes where b: "utf8_parse p = Inr bytes" ..
    have "hashPin p = Inr (hex_stringify (sha256_fips bytes))"
      unfolding hashPin_def b SHA256_fips by simp
    with b utf8_roundtrip [OF b]
    show "\<exists>bytes. utf8_parse p = Inr bytes \<and> utf8_stringify bytes = Inr p
         \<and> hashPin p = Inr (hex_stringify (sha256_fips bytes))
         \<and> length (hex_stringify (sha256_fips bytes)) = 64
         \<and> list_all lower_hex (hex_stringify (sha256_fips bytes))
         \<and> hex_parse (hex_stringify (sha256_fips bytes)) = sha256_fips bytes"
      by (simp add: length_hex_stringify length_sha256_fips lower_hex_hex_stringify
          hex_parse_hex_stringify)
  qed
  have c3: "(\<forall>c \<in> set p. uint c < 0x80) \<longrightarrow>
        hashPin p = Inr (hex_stringify (sha256_fips (map ucast p)))"
  proof
    assume "\<forall>c \<in> set p. uint c < 0x80"
    from utf8_parse_ascii [OF this]
    show "hashPin p = Inr (hex_stringify (sha256_fips (map ucast p)))"
      unfolding hashPin_def SHA256_fips by simp
  qed
  have c4: "\<not> well_formed p \<longrightarrow> hashPin p = Inl URIError"
  proof
    assume "\<not> well_formed p"
    from utf8_parse_ill_formed [OF this] show "hashPin p = Inl URIError"
      unfolding hashPin_def by simp
  qed
  have c7: "hashPin (lit ''1234'') \<noteq> hashPin (lit ''12345'')"
    unfolding hashPin_1234 hashPin_12345 using digests_differ by simp
  show ?thesis
    by (rule conjI [OF c1 conjI [OF c2 conjI [OF c3 conjI [OF c4
          conjI [OF hashPin_1234 conjI [OF hashPin_12345 c7]]]]]])
qed

theorem hashPin_is_sha256_of_utf8_witness:
  "well_formed (lit ''1234'')
   \<and> (\<exists>bytes. utf8_parse (lit ''1234'') = Inr bytes \<and> utf8_stringify bytes = Inr (lit ''1234'')
        \<and> hashPin (lit ''1234'') = Inr (hex_stringify (sha256_fips bytes))
        \<and> length (hex_stringify (sha256_fips bytes)) = 64
        \<and> list_all lower_hex (hex_stringify (sha256_fips bytes))
        \<and> hex_parse (hex_stringify (sha256_fips bytes)) = sha256_fips bytes)
   \<and> hashPin (lit ''1234'') = Inr (hex_stringify (sha256_fips (map ucast (lit ''1234''))))
   \<and> hex_stringify (sha256_fips (map ucast (lit ''1234'')))
       = lit ''03ac674216f3e15c761ee1a5e255f067953623c8b388b4459e13f978d7c846f4''
   \<and> \<not> well_formed lone_surrogate
   \<and> hashPin lone_surrogate = Inl URIError"
proof -
  note T = hashPin_is_sha256_of_utf8
  have 1: "\<exists>bytes. utf8_parse (lit ''1234'') = Inr bytes \<and> utf8_stringify bytes = Inr (lit ''1234'')
        \<and> hashPin (lit ''1234'') = Inr (hex_stringify (sha256_fips bytes))
        \<and> length (hex_stringify (sha256_fips bytes)) = 64
        \<and> list_all lower_hex (hex_stringify (sha256_fips bytes))
        \<and> hex_parse (hex_stringify (sha256_fips bytes)) = sha256_fips bytes"
    by (rule mp [OF conjunct1 [OF conjunct2 [OF T]] pin_facts(1)])
  have 2: "hashPin (lit ''1234'') = Inr (hex_stringify (sha256_fips (map ucast (lit ''1234''))))"
    by (rule mp [OF conjunct1 [OF conjunct2 [OF conjunct2 [OF T]]] pin_facts(3)])
  have 3: "hex_stringify (sha256_fips (map ucast (lit ''1234'')))
       = lit ''03ac674216f3e15c761ee1a5e255f067953623c8b388b4459e13f978d7c846f4''"
    using 2 unfolding hashPin_1234 by simp
  have 4: "hashPin lone_surrogate = Inl URIError"
    by (rule mp [OF conjunct1 [OF conjunct2 [OF conjunct2 [OF conjunct2 [OF T]]]] pin_facts(2)])
  show ?thesis
    by (intro conjI) (fact pin_facts 1 2 3 4)+
qed

section \<open>Admission control of the file list: claim C9\<close>

text \<open>
  C9. After every sequence of file selections and removals, starting from the empty list,
  the file list holds at most 5 files of at most 10 MB (10485760 bytes) in total. A
  selection that would exceed either bound leaves the state unchanged and shows a toast;
  one that fits is appended. The handlers have no effect but the new state and the toast:
  no request is sent by them.
\<close>

theorem file_list_admission:
  "admitted (files (foldl file_step initial_state events))
   \<and> (admitted (files st) \<longrightarrow> admitted (files (fst (handleFileSelect st sel))))
   \<and> (\<not> admitted (files st @ sel) \<longrightarrow>
        fst (handleFileSelect st sel) = st \<and> snd (handleFileSelect st sel) \<noteq> None)
   \<and> (admitted (files st @ sel) \<longrightarrow>
        handleFileSelect st sel = (st\<lparr>files := files st @ sel\<rparr>, None))"
  using file_steps_keep [OF admitted_initial] handleFileSelect_keeps
    handleFileSelect_rejects handleFileSelect_accepts
  by blast

lemma two_big_files: "admitted [big_file] \<and> \<not> admitted [big_file, big_file]"
  by (simp add: admitted_def total_size_def big_file_def)

theorem file_list_admission_witness:
  "admitted (files (initial_state\<lparr>files := [big_file]\<rparr>))
   \<and> admitted (files (fst (handleFileSelect (initial_state\<lparr>files := [big_file]\<rparr>) [big_file])))
   \<and> \<not> admitted (files (initial_state\<lparr>files := [big_file]\<rparr>) @ [big_file])
   \<and> fst (handleFileSelect (initial_state\<lparr>files := [big_file]\<rparr>) [big_file])
       = initial_state\<lparr>files := [big_file]\<rparr>
   \<and> snd (handleFileSelect (initial_state\<lparr>files := [big_file]\<rparr>) [big_file]) \<noteq> None
   \<and> admitted (files initial_state @ [big_file])
   \<and> handleFileSelect initial_state [big_file]
       = (initial_state\<lparr>files := files initial_state @ [big_file]\<rparr>, None)"
proof -
  let ?st = "initial_state\<lparr>files := [big_file]\<rparr>"
  have a: "admitted (files ?st)" and b: "\<not> admitted (files ?st @ [big_file])"
    and c: "admitted (files initial_state @ [big_file])"
    using two_big_files by (simp_all add: initial_state_def)
  from file_list_admission [of "[]" ?st "[big_file]"] a b
  have 1: "admitted (files (fst (handleFileSelect ?st [big_file])))"
    and 2: "fst (handleFileSelect ?st [big_file]) = ?st"
    and 3: "snd (handleFileSelect ?st [big_file]) \<noteq> None"
    by blast+
  from file_list_admission [of "[]" initial_state "[big_file]"] c
  have 4: "handleFileSelect initial_state [big_file]
           = (initial_state\<lparr>files := files initial_state @ [big_file]\<rparr>, None)"
    by blast
  show ?thesis using a b c 1 2 3 4 by blast
qed

section \<open>One-time view: claim C5\<close>




section \<open>Text round trip: claim C1\<close>

lemma valid_key_bytes: "valid_key K \<Longrightarrow> length (hex_parse K) = 32"
  by (simp add: valid_key_def length_hex_parse)

lemma aes256_xor_cipher: "aes256 xor_cipher"
  by (simp add: aes256_def xor_cipher_inverse)

lemma sample_facts:
  "valid_key key_a" "\<not> valid_key short_key" "is_hex short_key" "well_formed (lit ''hi'')"
  "\<not> well_formed lone_surrogate"
  by code_simp+

text \<open>
  C1 as stated, for every plaintext string, fails: a JavaScript string may hold a
  surrogate without its partner, and \<^verbatim>\<open>encryptText\<close> throws \<^verbatim>\<open>URIError\<close> on it (from
  \<^verbatim>\<open>encodeURIComponent\<close>, inside \<^verbatim>\<open>CryptoJS.AES.encrypt\<close>), under a valid key, so there is
  no ciphertext to decrypt.
\<close>

theorem text_round_trip_counterexample:
  "valid_key key_a \<and> encryptText xor_cipher rnd_a lone_surrogate key_a = Inl URIError"
  by code_simp

text \<open>
  C1, amended. For every well-formed plaintext string \<open>P\<close> (every surrogate is half of a
  pair) and every valid key \<open>K\<close> of 64 hexadecimal digits, \<^verbatim>\<open>encryptText\<close> returns a
  ciphertext and an IV, and \<^verbatim>\<open>decryptText\<close> of that ciphertext under \<open>K\<close> and that IV
  returns \<open>P\<close>. For a string that is not well-formed \<^verbatim>\<open>encryptText\<close> throws \<^verbatim>\<open>URIError\<close>.
\<close>

theorem text_round_trip:
  "(aes256 aes \<and> valid_key K \<and> well_formed P \<longrightarrow>
      (\<exists>r. encryptText aes rnd P K = Inr r
           \<and> decryptText aes (ciphertext r) K (iv r) = Some P))
   \<and> (\<not> well_formed P \<longrightarrow> encryptText aes rnd P K = Inl URIError)"
proof (intro conjI impI)
  assume a: "aes256 aes \<and> valid_key K \<and> well_formed P"
  then have "block_inverse aes (hex_parse K)"
    using valid_key_bytes [of K] by (simp add: aes256_def)
  from text_roundtrip [OF this, of P rnd] a
  show "\<exists>r. encryptText aes rnd P K = Inr r \<and> decryptText aes (ciphertext r) K (iv r) = Some P"
    by blast
next
  assume "\<not> well_formed P"
  then show "encryptText aes rnd P K = Inl URIError"
    by (simp add: encryptText_def AES_encrypt_def Let_def utf8_parse_ill_formed)
qed

theorem text_round_trip_witness:
  "aes256 xor_cipher \<and> valid_key key_a \<and> well_formed (lit ''hi'')
   \<and> (\<exists>r. encryptText xor_cipher rnd_a (lit ''hi'') key_a = Inr r
          \<and> decryptText xor_cipher (ciphertext r) key_a (iv r) = Some (lit ''hi''))
   \<and> \<not> well_formed lone_surrogate
   \<and> encryptText xor_cipher rnd_b lone_surrogate key_a = Inl URIError"
proof -
  have h: "aes256 xor_cipher \<and> valid_key key_a \<and> well_formed (lit ''hi'')"
    using aes256_xor_cipher sample_facts by simp
  have 1: "\<exists>r. encryptText xor_cipher rnd_a (lit ''hi'') key_a = Inr r
          \<and> decryptText xor_cipher (ciphertext r) key_a (iv r) = Some (lit ''hi'')"
    by (rule mp [OF conjunct1 [OF text_round_trip] h])
  have 2: "encryptText xor_cipher rnd_b lone_surrogate key_a = Inl URIError"
    by (rule mp [OF conjunct2 [OF text_round_trip] sample_facts(5)])
  show ?thesis using h 1 2 sample_facts(5) by simp
qed

section \<open>File round trip: claim C3\<close>

text \<open>
  C3. For every file content \<open>B\<close> and every valid key, \<^verbatim>\<open>encryptFile\<close> returns a record,
  and \<^verbatim>\<open>decryptFile\<close> of its data under the key and its IV returns a buffer equal to
  \<open>B\<close>. The text that enters the cipher is the Base64 encoding of \<open>B\<close>.
\<close>

theorem file_round_trip:
  "aes256 aes \<and> valid_key K \<longrightarrow>
     (\<exists>r ct. encryptFile aes rnd file K = Inr r
        \<and> AES_encrypt aes (base64_encode (f_content file)) (hex_parse K) (hex_parse (ef_iv r))
            = Inr ct
        \<and> ef_encryptedData r = base64_encode ct
        \<and> decryptFile aes (ef_encryptedData r) K (ef_iv r) = Some (f_content file))"
proof
  assume a: "aes256 aes \<and> valid_key K"
  then have "block_inverse aes (hex_parse K)"
    using valid_key_bytes [of K] by (simp add: aes256_def)
  from file_roundtrip [OF this, of rnd "file"]
  show "\<exists>r ct. encryptFile aes rnd file K = Inr r
        \<and> AES_encrypt aes (base64_encode (f_content file)) (hex_parse K) (hex_parse (ef_iv r))
            = Inr ct
        \<and> ef_encryptedData r = base64_encode ct
        \<and> decryptFile aes (ef_encryptedData r) K (ef_iv r) = Some (f_content file)"
    by blast
qed

theorem file_round_trip_witness:
  "aes256 xor_cipher \<and> valid_key key_a
   \<and> (\<exists>r ct. encryptFile xor_cipher rnd_a file_a key_a = Inr r
        \<and> AES_encrypt xor_cipher (base64_encode (f_content file_a)) (hex_parse key_a)
             (hex_parse (ef_iv r)) = Inr ct
        \<and> ef_encryptedData r = base64_encode ct
        \<and> decryptFile xor_cipher (ef_encryptedData r) key_a (ef_iv r) = Some (f_content file_a))"
proof -
  have h: "aes256 xor_cipher \<and> valid_key key_a"
    using aes256_xor_cipher sample_facts by simp
  from mp [OF file_round_trip h] h show ?thesis by simp
qed

section \<open>Keys and IVs of other lengths: claim C7\<close>

text \<open>
  C7 as stated fails: neither function checks a length. With a key of 32 hexadecimal
  digits (16 bytes) \<^verbatim>\<open>encryptText\<close> hands the key to the cipher and returns a ciphertext,
  and \<^verbatim>\<open>decryptText\<close> accepts an IV of two digits.
\<close>

theorem key_length_check_counterexample:
  "\<not> valid_key short_key
   \<and> encryptText xor_cipher rnd_a (lit ''hi'') short_key
       = Inr \<lparr>ciphertext = lit ''aWADGxcvIzs/R0NLV19jaw=='',
              iv = lit ''01080f161d242b323940474e555c636a''\<rparr>
   \<and> decryptText xor_cipher (lit ''aWADGxcvIzs/R0NLV19jaw=='') short_key
        (lit ''01080f161d242b323940474e555c636a'') = Some (lit ''hi'')
   \<and> decryptText xor_cipher (lit ''aWADGxcvIzs/R0NLV19jaw=='') short_key (lit ''01'') \<noteq> None"
  by code_simp

text \<open>
  C7, amended. \<^verbatim>\<open>encryptText\<close> and \<^verbatim>\<open>decryptText\<close> do not check the length of the key
  or of the IV and have no failure for it. A key of any even number of hexadecimal digits
  is parsed and handed to the cipher, and \<^verbatim>\<open>encryptText\<close> returns the ciphertext for every
  well-formed plaintext, whatever the cipher does with a key of that length; its only
  failure is \<^verbatim>\<open>URIError\<close> on a plaintext that is not well-formed. Where the cipher is
  invertible under the bytes of the key, \<^verbatim>\<open>decryptText\<close> recovers the plaintext. Of an IV
  of any even number of hexadecimal digits \<^verbatim>\<open>decryptText\<close> uses the first 16 bytes, with
  zeros for the missing ones, and it returns \<^verbatim>\<open>null\<close> only when the decrypted bytes are not
  UTF-8 text.
\<close>

theorem no_key_or_iv_length_check:
  "(is_hex K \<and> well_formed P \<longrightarrow>
      (\<exists>ct. AES_encrypt aes P (hex_parse K) (hex_parse (generateIV rnd)) = Inr ct
         \<and> encryptText aes rnd P K = Inr \<lparr>ciphertext = base64_encode ct, iv = generateIV rnd\<rparr>))
   \<and> (is_hex K \<and> encryptText aes rnd P K = Inl e \<longrightarrow> e = URIError \<and> \<not> well_formed P)
   \<and> (is_hex K \<and> block_inverse aes (hex_parse K) \<and> well_formed P \<longrightarrow>
        (\<exists>r. encryptText aes rnd P K = Inr r
           \<and> decryptText aes (ciphertext r) K (iv r) = Some P))
   \<and> (is_hex iv1 \<and> is_hex iv2 \<and> block16 (hex_parse iv1) = block16 (hex_parse iv2) \<longrightarrow>
        decryptText aes c K iv1 = decryptText aes c K iv2)
   \<and> (is_hex K \<and> is_hex iv1 \<and> decryptText aes c K iv1 = None \<longrightarrow>
        (\<exists>err. utf8_stringify (AES_decrypt aes (base64_parse c) (hex_parse K) (hex_parse iv1))
               = Inl err))"
proof -
  have c1: "is_hex K \<and> well_formed P \<longrightarrow>
      (\<exists>ct. AES_encrypt aes P (hex_parse K) (hex_parse (generateIV rnd)) = Inr ct
         \<and> encryptText aes rnd P K = Inr \<lparr>ciphertext = base64_encode ct, iv = generateIV rnd\<rparr>)"
  proof
    assume "is_hex K \<and> well_formed P"
    then have w: "well_formed P" ..
    from utf8_parse_well_formed [OF w] obtain data where "utf8_parse P = Inr data" ..
    then show "\<exists>ct. AES_encrypt aes P (hex_parse K) (hex_parse (generateIV rnd)) = Inr ct
         \<and> encryptText aes rnd P K = Inr \<lparr>ciphertext = base64_encode ct, iv = generateIV rnd\<rparr>"
      by (simp add: encryptText_def AES_encrypt_def Let_def)
  qed
  have c2: "is_hex K \<and> encryptText aes rnd P K = Inl e \<longrightarrow> e = URIError \<and> \<not> well_formed P"
  proof
    assume "is_hex K \<and> encryptText aes rnd P K = Inl e"
    then have f: "encryptText aes rnd P K = Inl e" ..
    show "e = URIError \<and> \<not> well_formed P"
    proof (cases "well_formed P")
      case True
      from utf8_parse_well_formed [OF True] obtain data where "utf8_parse P = Inr data" ..
      with f show ?thesis by (simp add: encryptText_def AES_encrypt_def Let_def)
    next
      case False
      with f utf8_parse_ill_formed [OF False] show ?thesis
        by (simp add: encryptText_def AES_encrypt_def Let_def)
    qed
  qed
  have c3: "is_hex K \<and> block_inverse aes (hex_parse K) \<and> well_formed P \<longrightarrow>
        (\<exists>r. encryptText aes rnd P K = Inr r
           \<and> decryptText aes (ciphertext r) K (iv r) = Some P)"
  proof
    assume "is_hex K \<and> block_inverse aes (hex_parse K) \<and> well_formed P"
    then have i: "block_inverse aes (hex_parse K)" and w: "well_formed P" by simp_all
    from text_roundtrip [OF i w, of rnd]
    show "\<exists>r. encryptText aes rnd P K = Inr r \<and> decryptText aes (ciphertext r) K (iv r) = Some P"
      by blast
  qed
  have c4: "is_hex iv1 \<and> is_hex iv2 \<and> block16 (hex_parse iv1) = block16 (hex_parse iv2) \<longrightarrow>
        decryptText aes c K iv1 = decryptText aes c K iv2"
    by (simp add: decryptText_def decryptText_body_def AES_decrypt_def Let_def)
  have c5: "is_hex K \<and> is_hex iv1 \<and> decryptText aes c K iv1 = None \<longrightarrow>
        (\<exists>err. utf8_stringify (AES_decrypt aes (base64_parse c) (hex_parse K) (hex_parse iv1))
               = Inl err)"
    by (simp add: decryptText_def decryptText_body_def Let_def split: sum.splits)
  show ?thesis
    by (rule conjI [OF c1 conjI [OF c2 conjI [OF c3 conjI [OF c4 c5]]]])
qed

lemma short_iv_facts:
  "is_hex (lit ''01'')" "is_hex (lit ''0100'')"
  "block16 (hex_parse (lit ''01'')) = block16 (hex_parse (lit ''0100''))"
  "decryptText xor_cipher (lit ''8PDw8PDw8PDw8PDw8PDwDg=='') key_a iv_a = None"
  "encryptText xor_cipher rnd_a lone_surrogate (lit ''00'') = Inl URIError"
  "is_hex (lit ''00'')" "is_hex key_a" "is_hex iv_a"
  by code_simp+

theorem no_key_or_iv_length_check_witness:
  "is_hex (lit ''00'') \<and> \<not> valid_key (lit ''00'') \<and> well_formed (lit ''hi'')
   \<and> (\<exists>ct. AES_encrypt xor_cipher (lit ''hi'') (hex_parse (lit ''00'')) (hex_parse (generateIV rnd_a))
             = Inr ct
          \<and> encryptText xor_cipher rnd_a (lit ''hi'') (lit ''00'')
              = Inr \<lparr>ciphertext = base64_encode ct, iv = generateIV rnd_a\<rparr>)
   \<and> encryptText xor_cipher rnd_a lone_surrogate (lit ''00'') = Inl URIError
   \<and> \<not> well_formed lone_surrogate
   \<and> is_hex short_key \<and> \<not> valid_key short_key \<and> block_inverse xor_cipher (hex_parse short_key)
   \<and> (\<exists>r. encryptText xor_cipher rnd_a (lit ''hi'') short_key = Inr r
          \<and> decryptText xor_cipher (ciphertext r) short_key (iv r) = Some (lit ''hi''))
   \<and> is_hex (lit ''01'') \<and> is_hex (lit ''0100'')
   \<and> block16 (hex_parse (lit ''01'')) = block16 (hex_parse (lit ''0100''))
   \<and> decryptText xor_cipher (lit ''aWADGxcvIzs/R0NLV19jaw=='') key_a (lit ''01'')
       = decryptText xor_cipher (lit ''aWADGxcvIzs/R0NLV19jaw=='') key_a (lit ''0100'')
   \<and> is_hex key_a \<and> is_hex iv_a
   \<and> decryptText xor_cipher (lit ''8PDw8PDw8PDw8PDw8PDwDg=='') key_a iv_a = None
   \<and> (\<exists>err. utf8_stringify (AES_decrypt xor_cipher (base64_parse (lit ''8PDw8PDw8PDw8PDw8PDwDg==''))
                 (hex_parse key_a) (hex_parse iv_a)) = Inl err)"
proof -
  note T = no_key_or_iv_length_check
  have w: "well_formed (lit ''hi'')" by (rule sample_facts(4))
  have nv: "\<not> valid_key (lit ''00'')" by code_simp
  have h1: "is_hex (lit ''00'') \<and> well_formed (lit ''hi'')"
    using w short_iv_facts(6) by simp
  have 1: "\<exists>ct. AES_encrypt xor_cipher (lit ''hi'') (hex_parse (lit ''00'')) (hex_parse (generateIV rnd_a))
             = Inr ct
          \<and> encryptText xor_cipher rnd_a (lit ''hi'') (lit ''00'')
              = Inr \<lparr>ciphertext = base64_encode ct, iv = generateIV rnd_a\<rparr>"
    by (rule mp [OF conjunct1 [OF T] h1])
  have h2: "is_hex (lit ''00'')
            \<and> encryptText xor_cipher rnd_a lone_surrogate (lit ''00'') = Inl URIError"
    using short_iv_facts(5,6) by simp
  have 2: "URIError = URIError \<and> \<not> well_formed lone_surrogate"
    by (rule mp [OF conjunct1 [OF conjunct2 [OF T]] h2])
  have h3: "is_hex short_key \<and> block_inverse xor_cipher (hex_parse short_key)
            \<and> well_formed (lit ''hi'')"
    using sample_facts xor_cipher_inverse by simp
  have 3: "\<exists>r. encryptText xor_cipher rnd_a (lit ''hi'') short_key = Inr r
          \<and> decryptText xor_cipher (ciphertext r) short_key (iv r) = Some (lit ''hi'')"
    by (rule mp [OF conjunct1 [OF conjunct2 [OF conjunct2 [OF T]]] h3])
  have h4: "is_hex (lit ''01'') \<and> is_hex (lit ''0100'')
            \<and> block16 (hex_parse (lit ''01'')) = block16 (hex_parse (lit ''0100''))"
    using short_iv_facts(1,2,3) by simp
  have 4: "decryptText xor_cipher (lit ''aWADGxcvIzs/R0NLV19jaw=='') key_a (lit ''01'')
       = decryptText xor_cipher (lit ''aWADGxcvIzs/R0NLV19jaw=='') key_a (lit ''0100'')"
    by (rule mp [OF conjunct1 [OF conjunct2 [OF conjunct2 [OF conjunct2 [OF T]]]] h4])
  have h5: "is_hex key_a \<and> is_hex iv_a
            \<and> decryptText xor_cipher (lit ''8PDw8PDw8PDw8PDw8PDwDg=='') key_a iv_a = None"
    using short_iv_facts(4,7,8) by simp
  have 5: "\<exists>err. utf8_stringify (AES_decrypt xor_cipher (base64_parse (lit ''8PDw8PDw8PDw8PDw8PDwDg==''))
                 (hex_parse key_a) (hex_parse iv_a)) = Inl err"
    by (rule mp [OF conjunct2 [OF conjunct2 [OF conjunct2 [OF conjunct2 [OF T]]]] h5])
  have nl: "\<not> well_formed lone_surrogate" by (rule conjunct2 [OF 2])
  have ns: "\<not> valid_key short_key" by (rule sample_facts(2))
  have i: "block_inverse xor_cipher (hex_parse short_key)" by (rule xor_cipher_inverse)
  show ?thesis
    by (intro conjI) (fact short_iv_facts sample_facts nv w 1 nl ns i 3 4 5)+
qed

section \<open>The request of \<^verbatim>\<open>handleCreate\<close>: claims C4 and C10\<close>

text \<open>
  C4. The payload that \<^verbatim>\<open>handleCreate\<close> passes to \<^verbatim>\<open>createSecret\<close> holds the Base64
  ciphertext of the text, the IV generated for it, the PIN digest or \<^verbatim>\<open>null\<close>, the parsed
  expiry, the one-time flag and the encrypted files (for each file its ciphertext, its
  IV, its name, type and size), and nothing else. The key is in no field: the random
  bytes of the key reach the payload through the block cipher only, so under a cipher
  that ignores its key two runs that differ in nothing but the key bytes send the same
  payload. (The key goes to the state of \<^verbatim>\<open>navigate('/share', ...)\<close>, which is not a
  request.)
\<close>

theorem create_request_holds_no_key:
  "(request_of (handleCreate aes rnd srv st) = Some p \<longrightarrow>
      (\<exists>ct. AES_encrypt aes (secret_or_space st)
               (hex_parse (generateEncryptionKey (key_rnd rnd)))
               (hex_parse (generateIV (text_rnd rnd))) = Inr ct
             \<and> sp_encryptedData p = base64_encode ct)
      \<and> sp_iv p = generateIV (text_rnd rnd)
      \<and> pin_digest st = Inr (sp_pinHash p)
      \<and> sp_expiryMinutes p = parseInt (expiryMinutes st)
      \<and> sp_oneTimeView p = oneTimeView st
      \<and> encrypt_files aes (file_rnd rnd) (generateEncryptionKey (key_rnd rnd)) (files st)
          = Inr (sp_files p))
   \<and> (key_blind aes \<and> text_rnd rnd = text_rnd rnd' \<and> file_rnd rnd = file_rnd rnd' \<longrightarrow>
        request_of (handleCreate aes rnd srv st) = request_of (handleCreate aes rnd' srv st))"
proof (intro conjI impI)
  assume "key_blind aes \<and> text_rnd rnd = text_rnd rnd' \<and> file_rnd rnd = file_rnd rnd'"
  then show "request_of (handleCreate aes rnd srv st) = request_of (handleCreate aes rnd' srv st)"
    unfolding request_of_handleCreate by (intro key_blind_create_request) simp_all
next
  assume "request_of (handleCreate aes rnd srv st) = Some p"
  then have p: "create_request aes rnd st = Some p" by (simp only: request_of_handleCreate)
  show "\<exists>ct. AES_encrypt aes (secret_or_space st)
               (hex_parse (generateEncryptionKey (key_rnd rnd)))
               (hex_parse (generateIV (text_rnd rnd))) = Inr ct
             \<and> sp_encryptedData p = base64_encode ct"
    by (rule create_request_fields(1) [OF p])
  show "sp_iv p = generateIV (text_rnd rnd)" by (rule create_request_fields(2) [OF p])
  show "pin_digest st = Inr (sp_pinHash p)" by (rule create_request_fields(3) [OF p])
  show "sp_expiryMinutes p = parseInt (expiryMinutes st)" by (rule create_request_fields(4) [OF p])
  show "sp_oneTimeView p = oneTimeView st" by (rule create_request_fields(5) [OF p])
  show "encrypt_files aes (file_rnd rnd) (generateEncryptionKey (key_rnd rnd)) (files st)
          = Inr (sp_files p)"
    by (rule create_request_fields(6) [OF p])
qed

lemma zero_cipher_facts: "key_blind zero_cipher" "aes256 zero_cipher"
  by (simp_all add: key_blind_def zero_cipher_def aes256_def block_inverse_def)

lemma entropy_facts:
  "text_rnd entropy_a = text_rnd entropy_b" "file_rnd entropy_a = file_rnd entropy_b"
  by (simp_all add: entropy_a_def entropy_b_def)

lemma keys_differ:
  "generateEncryptionKey (key_rnd entropy_a) \<noteq> generateEncryptionKey (key_rnd entropy_b)"
  by code_simp

lemma state_files_only_facts:
  "secretText state_files_only = []" "files state_files_only \<noteq> []"
  "\<not> usePin state_files_only" "well_formed (secret_or_space state_files_only)"
  by code_simp+

lemma files_only_request:
  "aes256 aes \<Longrightarrow> \<exists>p. request_of (handleCreate aes rnd srv state_files_only) = Some p"
  unfolding request_of_handleCreate
  using state_files_only_facts by (intro create_request_sent) simp_all

theorem create_request_holds_no_key_witness:
  "key_blind zero_cipher \<and> text_rnd entropy_a = text_rnd entropy_b
   \<and> file_rnd entropy_a = file_rnd entropy_b
   \<and> generateEncryptionKey (key_rnd entropy_a) \<noteq> generateEncryptionKey (key_rnd entropy_b)
   \<and> request_of (handleCreate zero_cipher entropy_a no_server state_files_only)
       = request_of (handleCreate zero_cipher entropy_b no_server state_files_only)
   \<and> (\<exists>p. request_of (handleCreate zero_cipher entropy_a no_server state_files_only) = Some p
          \<and> sp_iv p = generateIV (text_rnd entropy_a)
          \<and> pin_digest state_files_only = Inr (sp_pinHash p)
          \<and> sp_oneTimeView p = oneTimeView state_files_only)"
proof -
  have h: "key_blind zero_cipher \<and> text_rnd entropy_a = text_rnd entropy_b
           \<and> file_rnd entropy_a = file_rnd entropy_b"
    using zero_cipher_facts(1) entropy_facts by simp
  have 1: "request_of (handleCreate zero_cipher entropy_a no_server state_files_only)
       = request_of (handleCreate zero_cipher entropy_b no_server state_files_only)"
    by (rule mp [OF conjunct2 [OF create_request_holds_no_key] h])
  from files_only_request [OF zero_cipher_facts(2), of entropy_a no_server] obtain p where
    p: "request_of (handleCreate zero_cipher entropy_a no_server state_files_only) = Some p" ..
  from mp [OF conjunct1 [OF create_request_holds_no_key] p]
  have "sp_iv p = generateIV (text_rnd entropy_a)
          \<and> pin_digest state_files_only = Inr (sp_pinHash p)
          \<and> sp_oneTimeView p = oneTimeView state_files_only"
    by simp
  with p have 2: "\<exists>p. request_of (handleCreate zero_cipher entropy_a no_server state_files_only) = Some p
          \<and> sp_iv p = generateIV (text_rnd entropy_a)
          \<and> pin_digest state_files_only = Inr (sp_pinHash p)
          \<and> sp_oneTimeView p = oneTimeView state_files_only"
    by blast
  show ?thesis using h keys_differ 1 2 by simp
qed

text \<open>
  C10. When the secret text is empty and files are attached, \<^verbatim>\<open>handleCreate\<close> encrypts
  one space in place of the empty string: the request is sent (with no PIN, or a PIN of
  at least 4 characters that is well-formed text), its text ciphertext is what
  \<^verbatim>\<open>encryptText\<close> gives for \<^verbatim>\<open>" "\<close>, and decrypting it under the key of the run gives
  \<^verbatim>\<open>" "\<close>, which is not the empty string. In every run that sends a request the text
  ciphertext decrypts to a non-empty string.
\<close>

theorem empty_text_is_sent_as_space:
  "(aes256 aes \<and> secretText st = [] \<and> files st \<noteq> []
      \<and> (usePin st \<longrightarrow> 4 \<le> length (pin st) \<and> well_formed (pin st)) \<longrightarrow>
      (\<exists>p r. request_of (handleCreate aes rnd srv st) = Some p
         \<and> encryptText aes (text_rnd rnd) (lit '' '') (generateEncryptionKey (key_rnd rnd)) = Inr r
         \<and> sp_encryptedData p = ciphertext r \<and> sp_iv p = iv r
         \<and> decryptText aes (sp_encryptedData p) (generateEncryptionKey (key_rnd rnd)) (sp_iv p)
             = Some (lit '' '')))
   \<and> (aes256 aes \<and> request_of (handleCreate aes rnd srv st) = Some q \<longrightarrow>
        (\<exists>t. t \<noteq> []
           \<and> decryptText aes (sp_encryptedData q) (generateEncryptionKey (key_rnd rnd)) (sp_iv q)
               = Some t))
   \<and> lit '' '' \<noteq> ([] :: jsstring)"
proof (intro conjI impI)
  show "lit '' '' \<noteq> ([] :: jsstring)" by (simp add: lit_def)
next
  assume "aes256 aes \<and> request_of (handleCreate aes rnd srv st) = Some q"
  then have a: "aes256 aes" and q: "create_request aes rnd st = Some q"
    by (simp_all only: request_of_handleCreate)
  from create_request_decrypts [OF a q] secret_or_space_nonempty [of st]
  show "\<exists>t. t \<noteq> []
           \<and> decryptText aes (sp_encryptedData q) (generateEncryptionKey (key_rnd rnd)) (sp_iv q)
               = Some t"
    by blast
next
  assume h: "aes256 aes \<and> secretText st = [] \<and> files st \<noteq> []
      \<and> (usePin st \<longrightarrow> 4 \<le> length (pin st) \<and> well_formed (pin st))"
  then have a: "aes256 aes" and sp: "secret_or_space st = lit '' ''"
    by (simp_all add: secret_or_space_def)
  have wf: "well_formed (secret_or_space st)" unfolding sp by code_simp
  from create_request_sent [OF a _ _ wf, of rnd] h obtain p where
    p: "create_request aes rnd st = Some p" by auto
  from create_request_fields(7) [OF p] obtain r where
    r: "encryptText aes (text_rnd rnd) (lit '' '') (generateEncryptionKey (key_rnd rnd)) = Inr r"
      "sp_encryptedData p = ciphertext r" "sp_iv p = iv r"
    unfolding sp by blast
  from create_request_decrypts [OF a p]
  have d: "decryptText aes (sp_encryptedData p) (generateEncryptionKey (key_rnd rnd)) (sp_iv p)
             = Some (lit '' '')"
    unfolding sp .
  show "\<exists>p r. request_of (handleCreate aes rnd srv st) = Some p
         \<and> encryptText aes (text_rnd rnd) (lit '' '') (generateEncryptionKey (key_rnd rnd)) = Inr r
         \<and> sp_encryptedData p = ciphertext r \<and> sp_iv p = iv r
         \<and> decryptText aes (sp_encryptedData p) (generateEncryptionKey (key_rnd rnd)) (sp_iv p)
             = Some (lit '' '')"
    unfolding request_of_handleCreate using p r d by blast
qed

theorem empty_text_is_sent_as_space_witness:
  "aes256 xor_cipher \<and> secretText state_files_only = [] \<and> files state_files_only \<noteq> []
   \<and> \<not> usePin state_files_only
   \<and> (\<exists>p r. request_of (handleCreate xor_cipher entropy_a no_server state_files_only) = Some p
         \<and> encryptText xor_cipher (text_rnd entropy_a) (lit '' '')
              (generateEncryptionKey (key_rnd entropy_a)) = Inr r
         \<and> sp_encryptedData p = ciphertext r \<and> sp_iv p = iv r
         \<and> decryptText xor_cipher (sp_encryptedData p)
              (generateEncryptionKey (key_rnd entropy_a)) (sp_iv p) = Some (lit '' ''))"
proof -
  have h: "aes256 xor_cipher \<and> secretText state_files_only = [] \<and> files state_files_only \<noteq> []
      \<and> (usePin state_files_only \<longrightarrow>
           4 \<le> length (pin state_files_only) \<and> well_formed (pin state_files_only))"
    using aes256_xor_cipher state_files_only_facts by simp
  from mp [OF conjunct1 [OF empty_text_is_sent_as_space] h]
  show ?thesis using aes256_xor_cipher state_files_only_facts by simp
qed

end
